theory Spec2Isabelle
  imports Complex_Main
begin

section \<open>JavaScript helpers\<close>

text \<open>
  Strings are \<open>char list\<close>. A JavaScript value that may be \<open>null\<close> or \<open>undefined\<close> is an
  \<open>option\<close>; a string is falsy exactly when it is empty.
\<close>

definition truthy :: "string option \<Rightarrow> bool" where
  "truthy v = (case v of None \<Rightarrow> False | Some s \<Rightarrow> s \<noteq> [])"

definition is_digit :: "char \<Rightarrow> bool" where
  "is_digit c = (c \<in> set ''0123456789'')"

definition is_space :: "char \<Rightarrow> bool" where
  "is_space c = (c \<in> set [CHR '' '', CHR 0x09, CHR 0x0A, CHR 0x0B, CHR 0x0C, CHR 0x0D])"

text \<open>\<open>String.prototype.trim\<close>.\<close>

definition trim :: "string \<Rightarrow> string" where
  "trim s = rev (dropWhile is_space (rev (dropWhile is_space s)))"

text \<open>\<open>Array.prototype.join\<close>.\<close>

fun join :: "string \<Rightarrow> string list \<Rightarrow> string" where
  "join sep [] = []"
| "join sep [x] = x"
| "join sep (x # y # ys) = x @ sep @ join sep (y # ys)"

text \<open>Decimal rendering of a number inside a template string.\<close>

definition digit_char :: "nat \<Rightarrow> char" where
  "digit_char d = ''0123456789'' ! d"

function dec_nat :: "nat \<Rightarrow> string" where
  "dec_nat n = (if n < 10 then [digit_char n] else dec_nat (n div 10) @ [digit_char (n mod 10)])"
  by pat_completeness auto
termination
  by (relation "measure (\<lambda>n. n)") auto

declare dec_nat.simps [simp del]

definition dec_int :: "int \<Rightarrow> string" where
  "dec_int i = (if i < 0 then CHR ''-'' # dec_nat (nat (- i)) else dec_nat (nat i))"

text \<open>
  \<open>parseInt(s, 10)\<close>: leading white space is skipped, an optional sign is read, then the
  longest run of decimal digits; with no digit the result is \<open>NaN\<close>, here \<open>None\<close>.
\<close>

definition digit_val :: "char \<Rightarrow> int" where
  "digit_val c = of_char c - 48"

definition digits_val :: "string \<Rightarrow> int" where
  "digits_val ds = foldl (\<lambda>acc c. 10 * acc + digit_val c) 0 ds"

definition parseInt10 :: "string \<Rightarrow> int option" where
  "parseInt10 s =
     (let s1 = dropWhile is_space s;
          neg = (case s1 of c # _ \<Rightarrow> c = CHR ''-'' | [] \<Rightarrow> False);
          s2 = (case s1 of c # r \<Rightarrow> (if c = CHR ''-'' \<or> c = CHR ''+'' then r else s1) | [] \<Rightarrow> s1);
          ds = takeWhile is_digit s2
      in if ds = [] then None
         else Some (if neg then - digits_val ds else digits_val ds))"

text \<open>
  \<open>uri.match(/\/videos\/(\d+)/)\<close> and \<open>uri.match(/\/projects\/(\d+)/)\<close>: the leftmost place
  where the literal is followed by a digit, and there the longest run of digits.
\<close>

definition match_here :: "string \<Rightarrow> string \<Rightarrow> string option" where
  "match_here lit s =
     (if take (length lit) s = lit \<and> takeWhile is_digit (drop (length lit) s) \<noteq> []
      then Some (takeWhile is_digit (drop (length lit) s)) else None)"

fun match_digits :: "string \<Rightarrow> string \<Rightarrow> string option" where
  "match_digits lit [] = match_here lit []"
| "match_digits lit (c # cs) =
     (case match_here lit (c # cs) of
        Some d \<Rightarrow> Some d
      | None \<Rightarrow> match_digits lit cs)"

definition extractVideoId :: "string \<Rightarrow> string" where
  "extractVideoId uri = (case match_digits ''/videos/'' uri of Some d \<Rightarrow> d | None \<Rightarrow> uri)"

definition extractFolderId :: "string \<Rightarrow> string" where
  "extractFolderId uri = (case match_digits ''/projects/'' uri of Some d \<Rightarrow> d | None \<Rightarrow> uri)"

section \<open>Errors\<close>

text \<open>
  What a \<open>catch\<close> receives. An Axios error carries \<open>message\<close>, the rejected \<open>response\<close> when the
  server answered (status, the \<open>retry-after\<close> header, the body) and \<open>request\<close> when the request
  was sent; an \<open>Error\<close> made with \<open>new Error(msg)\<close> has the message only. In a body, an absent
  field is the empty string, and \<open>body_json\<close> is \<open>JSON.stringify\<close> of the body.
\<close>

record err_body =
  body_message :: string
  body_error :: string
  body_json :: string

record err_response =
  err_status :: int
  err_retry_after :: "string option"
  err_data :: "err_body option"

record js_error =
  err_message :: string
  err_response :: "err_response option"
  err_request :: bool

definition new_Error :: "string \<Rightarrow> js_error" where
  "new_Error msg = \<lparr>err_message = msg, err_response = None, err_request = False\<rparr>"

text \<open>\<open>a || b\<close> on strings.\<close>

definition or_else :: "string \<Rightarrow> string \<Rightarrow> string" where
  "or_else a b = (if a \<noteq> [] then a else b)"

section \<open>The video browser: paginated, rate-limited enumeration\<close>

text \<open>
  The \<open>VideoBrowser\<close> component (\<open>src/unnamed/part_000\<close>): \<open>rateLimitedRequest\<close> and
  \<open>fetchAllData\<close>. Line numbers in this part are lines of that file.
\<close>

subsection \<open>Data\<close>

definition REQUEST_DELAY_MS :: int where "REQUEST_DELAY_MS = 500"
definition MAX_RETRIES :: nat where "MAX_RETRIES = 5"
definition INITIAL_RETRY_DELAY_MS :: int where "INITIAL_RETRY_DELAY_MS = 2000"

record raw_download =
  rd_quality :: string
  rd_rendition :: string
  rd_size :: int
  rd_width :: int
  rd_height :: int

record ancestor =
  anc_uri :: string
  anc_name :: string

text \<open>\<open>pf_ancestor_path\<close> is \<open>metadata?.connections?.ancestor_path\<close>.\<close>

record parent_folder =
  pf_uri :: string
  pf_name :: string
  pf_ancestor_path :: "ancestor list option"

record VimeoVideoRaw =
  raw_uri :: string
  raw_name :: string
  raw_type :: string
  raw_download :: "raw_download list option"
  raw_parent_folder :: "parent_folder option"

record VimeoVideoInfo =
  info_vimeoId :: string
  title :: string
  folderId :: "string option"
  folderName :: "string option"
  folderPath :: "string option"
  fileSize :: "int option"

record folder_entry =
  fe_name :: string
  fe_path :: string

text \<open>The folder map is a JavaScript \<open>Map\<close>: keys in insertion order.\<close>

type_synonym folder_map = "(string \<times> folder_entry) list"

datatype fetch_status = Status_idle | Status_fetching | Status_complete | Status_error

record FetchProgress =
  fp_status :: fetch_status
  fp_currentPage :: int
  fp_totalPages :: int
  fp_totalVideos :: int
  fp_errorMessage :: "string option"

record page_response =
  pg_total :: int
  pg_data :: "VimeoVideoRaw list option"
  pg_next :: "string option"

subsection \<open>Per-video derivation\<close>

text \<open>Lines 250--275: the folder of a video and its path.\<close>

definition folder_path_of :: "parent_folder \<Rightarrow> string" where
  "folder_path_of pf =
     (case pf_ancestor_path pf of
        Some (a # as) \<Rightarrow> join ''/'' (map anc_name (rev (a # as)) @ [pf_name pf])
      | _ \<Rightarrow> pf_name pf)"

text \<open>
  Lines 277--288: \<open>filter\<close>, then \<open>reduce\<close> with \<open>video.download[0]\<close> as the initial value.
\<close>

definition larger :: "raw_download \<Rightarrow> raw_download \<Rightarrow> raw_download" where
  "larger largest current = (if rd_size current > rd_size largest then current else largest)"

definition file_size_of :: "raw_download list option \<Rightarrow> int option" where
  "file_size_of download =
     (case download of
        Some (d0 # ds) \<Rightarrow>
          Some (rd_size (foldl larger d0 (filter (\<lambda>d. rd_rendition d \<noteq> ''source'') (d0 # ds))))
      | _ \<Rightarrow> None)"

definition folder_map_add :: "folder_map \<Rightarrow> string \<Rightarrow> folder_entry \<Rightarrow> folder_map" where
  "folder_map_add fm k v = (if map_of fm k \<noteq> None then fm else fm @ [(k, v)])"

text \<open>
  One turn of the \<open>for (const video of data.data)\<close> loop: what is pushed for a retained
  entry, and the turn itself, which skips an entry that is not of type \<open>video\<close>.
\<close>

definition video_info :: "VimeoVideoRaw \<Rightarrow> VimeoVideoInfo" where
  "video_info video =
     \<lparr>info_vimeoId = extractVideoId (raw_uri video),
      title = raw_name video,
      folderId = map_option (\<lambda>pf. extractFolderId (pf_uri pf)) (raw_parent_folder video),
      folderName = map_option pf_name (raw_parent_folder video),
      folderPath = map_option folder_path_of (raw_parent_folder video),
      fileSize = file_size_of (raw_download video)\<rparr>"

definition process_video ::
  "VimeoVideoInfo list \<times> folder_map \<Rightarrow> VimeoVideoRaw \<Rightarrow> VimeoVideoInfo list \<times> folder_map" where
  "process_video acc video =
     (if raw_type video \<noteq> ''video'' then acc
      else
        (fst acc @ [video_info video],
         (case raw_parent_folder video of
            None \<Rightarrow> snd acc
          | Some pf \<Rightarrow>
              folder_map_add (snd acc) (extractFolderId (pf_uri pf))
                \<lparr>fe_name = pf_name pf, fe_path = folder_path_of pf\<rparr>)))"

definition process_page ::
  "VimeoVideoInfo list \<times> folder_map \<Rightarrow> VimeoVideoRaw list option \<Rightarrow>
     VimeoVideoInfo list \<times> folder_map" where
  "process_page acc d = (case d of None \<Rightarrow> acc | Some vs \<Rightarrow> foldl process_video acc vs)"

subsection \<open>State and environment\<close>

text \<open>
  The component state the enumeration reads and writes, with the clock (\<open>Date.now()\<close>), the
  log of the \<open>delay(ms)\<close> calls (\<open>None\<close> for \<open>NaN\<close>) and the number of \<open>axios.get\<close> calls made.
  The rate-limit banner \<open>rateLimitInfo\<close> is display text and is left out.
\<close>

record browser_state =
  videos :: "VimeoVideoInfo list"
  folders :: folder_map
  fetch_progress :: FetchProgress
  lastRequestTime :: int
  clock :: int
  delays :: "int option list"
  sent :: nat

text \<open>
  The upstream answers each attempt after some time, with a page or with an error. The
  environment of one \<open>rateLimitedRequest\<close> call maps the attempt number to the reply; the
  environment of the enumeration gives one such map per call and URL.
\<close>

record server_reply =
  latency :: nat
  outcome :: "js_error + page_response"

definition delay :: "int option \<Rightarrow> browser_state \<Rightarrow> browser_state" where
  "delay ms st =
     st\<lparr>clock := clock st + (case ms of Some n \<Rightarrow> max 0 n | None \<Rightarrow> 0),
        delays := delays st @ [ms]\<rparr>"

definition is_429 :: "js_error \<Rightarrow> bool" where
  "is_429 e = (case err_response e of Some r \<Rightarrow> err_status r = 429 | None \<Rightarrow> False)"

definition wait_time :: "js_error \<Rightarrow> int \<Rightarrow> int option" where
  "wait_time e retryDelay =
     (case err_response e of
        Some r \<Rightarrow>
          (case err_retry_after r of
             Some h \<Rightarrow> (if h \<noteq> [] then map_option (\<lambda>n. n * 1000) (parseInt10 h) else Some retryDelay)
           | None \<Rightarrow> Some retryDelay)
      | None \<Rightarrow> Some retryDelay)"

definition rate_limit_error :: js_error where
  "rate_limit_error = new_Error ''Rate limit exceeded. Please wait a few minutes and try again.''"

subsection \<open>rateLimitedRequest\<close>

text \<open>
  The \<open>while (true)\<close> loop of lines 115--161. Attempt number \<open>retries\<close> is the one made after
  \<open>retries\<close> quota rejections.
\<close>

definition attempt :: "nat \<Rightarrow> browser_state \<Rightarrow> browser_state" where
  \<comment> \<open>\<open>lastRequestTime.current = Date.now()\<close>, then \<open>axios.get\<close> settles after the latency.\<close>
  "attempt l st =
     st\<lparr>lastRequestTime := clock st, sent := Suc (sent st), clock := clock st + int l\<rparr>"

function retry_loop ::
  "(nat \<Rightarrow> server_reply) \<Rightarrow> nat \<Rightarrow> int \<Rightarrow> browser_state \<Rightarrow>
     (js_error + page_response) \<times> browser_state" where
  "retry_loop srv retries retryDelay st =
     (case outcome (srv retries) of
        Inr response \<Rightarrow> (Inr response, attempt (latency (srv retries)) st)
      | Inl e \<Rightarrow>
          (if is_429 e then
             (if Suc retries > MAX_RETRIES then
                (Inl rate_limit_error, attempt (latency (srv retries)) st)
              else
                retry_loop srv (Suc retries) (retryDelay * 2)
                  (delay (wait_time e retryDelay) (attempt (latency (srv retries)) st)))
           else (Inl e, attempt (latency (srv retries)) st)))"
  by pat_completeness auto
termination
  by (relation "measure (\<lambda>(srv, retries, retryDelay, st). Suc MAX_RETRIES - retries)") auto

declare retry_loop.simps [simp del]

definition rateLimitedRequest ::
  "(nat \<Rightarrow> server_reply) \<Rightarrow> browser_state \<Rightarrow> (js_error + page_response) \<times> browser_state" where
  "rateLimitedRequest srv st =
     (let timeSinceLastRequest = clock st - lastRequestTime st
      in retry_loop srv 0 INITIAL_RETRY_DELAY_MS
           (if timeSinceLastRequest < REQUEST_DELAY_MS
            then delay (Some (REQUEST_DELAY_MS - timeSinceLastRequest)) st
            else st))"

subsection \<open>fetchAllData\<close>

definition getBasePath :: "string \<Rightarrow> string" where
  "getBasePath teamOwnerId =
     (if trim teamOwnerId \<noteq> [] then ''https://api.vimeo.com/users/'' @ trim teamOwnerId
      else ''https://api.vimeo.com/me'')"

text \<open>\<open>Math.ceil(total / perPage)\<close> on integers.\<close>

definition calculateTotalPages :: "int \<Rightarrow> int \<Rightarrow> int" where
  "calculateTotalPages n perPage = - ((- n) div perPage)"

definition next_url :: "page_response \<Rightarrow> string option" where
  "next_url d =
     (case pg_next d of
        Some n \<Rightarrow> (if n \<noteq> [] then Some (''https://api.vimeo.com'' @ n) else None)
      | None \<Rightarrow> None)"

definition first_page_progress :: "int \<Rightarrow> page_response \<Rightarrow> browser_state \<Rightarrow> browser_state" where
  "first_page_progress currentPage d st =
     (if currentPage = 1
      then st\<lparr>fetch_progress := (fetch_progress st)
              \<lparr>fp_totalPages := calculateTotalPages (pg_total d) 100,
               fp_totalVideos := pg_total d\<rparr>\<rparr>
      else st)"

definition page_progress :: "int \<Rightarrow> nat \<Rightarrow> browser_state \<Rightarrow> browser_state" where
  "page_progress currentPage n st =
     st\<lparr>fetch_progress := (fetch_progress st)\<lparr>fp_currentPage := currentPage, fp_totalVideos := int n\<rparr>\<rparr>"

text \<open>
  The \<open>while (nextUrl)\<close> loop of lines 219--312. It ends when a page has no \<open>paging.next\<close> or
  when a request throws; an upstream that always names a next page keeps it running, which
  is the value \<open>None\<close>. The result is the thrown error, or the accumulated videos, folder map
  and \<open>totalPages\<close>.
\<close>

partial_function (option) page_loop ::
  "(nat \<Rightarrow> string \<Rightarrow> nat \<Rightarrow> server_reply) \<Rightarrow> nat \<Rightarrow> string option \<Rightarrow> int \<Rightarrow> int \<Rightarrow>
     VimeoVideoInfo list \<times> folder_map \<Rightarrow> browser_state \<Rightarrow>
     ((js_error + (VimeoVideoInfo list \<times> folder_map) \<times> int) \<times> browser_state) option" where
  "page_loop server k nextUrl currentPage totalPages acc st =
     (case nextUrl of
        None \<Rightarrow> Some (Inr (acc, totalPages), st)
      | Some url \<Rightarrow>
          (case rateLimitedRequest (server k url) st of
             (Inl e, st1) \<Rightarrow> Some (Inl e, st1)
           | (Inr d, st1) \<Rightarrow>
               page_loop server (Suc k) (next_url d) (currentPage + 1)
                 (if currentPage = 1 then calculateTotalPages (pg_total d) 100 else totalPages)
                 (process_page acc (pg_data d))
                 (page_progress currentPage (length (fst (process_page acc (pg_data d))))
                    (first_page_progress currentPage d st1))))"

text \<open>\<open>error.response?.data?.error || error.response?.data?.message || error.message || ...\<close>\<close>

definition fetch_error_message :: "js_error \<Rightarrow> string" where
  "fetch_error_message e =
     (let b = (case err_response e of Some r \<Rightarrow> err_data r | None \<Rightarrow> None);
          be = (case b of Some x \<Rightarrow> body_error x | None \<Rightarrow> []);
          bm = (case b of Some x \<Rightarrow> body_message x | None \<Rightarrow> [])
      in or_else be (or_else bm (or_else (err_message e) ''Failed to fetch data'')))"

definition fetching_progress :: FetchProgress where
  "fetching_progress =
     \<lparr>fp_status = Status_fetching, fp_currentPage = 0, fp_totalPages = 0, fp_totalVideos = 0,
      fp_errorMessage = None\<rparr>"

definition fetchAllData ::
  "string \<Rightarrow> string \<Rightarrow> (nat \<Rightarrow> string \<Rightarrow> nat \<Rightarrow> server_reply) \<Rightarrow> browser_state \<Rightarrow>
     browser_state option" where
  "fetchAllData vimeoToken teamOwnerId server st =
     (if trim vimeoToken = [] then
        Some (st\<lparr>fetch_progress := (fetch_progress st)
                \<lparr>fp_status := Status_error,
                 fp_errorMessage :=
                   Some ''Please enter a Vimeo token in the Credentials section of the Importer tab.''\<rparr>\<rparr>)
      else
        (case page_loop server 0 (Some (getBasePath teamOwnerId @ ''/videos?per_page=100'')) 1 1
                ([], []) (st\<lparr>videos := [], folders := [], fetch_progress := fetching_progress\<rparr>) of
           None \<Rightarrow> None
         | Some (Inr (acc, totalPages), st2) \<Rightarrow>
             Some (st2\<lparr>folders := snd acc, videos := fst acc,
                      fetch_progress := (fetch_progress st2)
                        \<lparr>fp_status := Status_complete, fp_currentPage := totalPages,
                         fp_totalVideos := int (length (fst acc))\<rparr>\<rparr>)
         | Some (Inl e, st2) \<Rightarrow>
             Some (st2\<lparr>fetch_progress := (fetch_progress st2)
                      \<lparr>fp_status := Status_error,
                       fp_errorMessage := Some (''Error: '' @ fetch_error_message e)\<rparr>\<rparr>)))"

section \<open>The importer: one item's pipeline\<close>

text \<open>
  The \<open>App\<close> component (\<open>src/src/App.tsx\<close>). Line numbers in this part and the next are
  lines of that file.
\<close>

subsection \<open>Data\<close>

datatype ImportStage =
  Checking | Fetching_vimeo | Downloading | Creating_video | Uploading | Uploading_thumbnail
  | Polling | Complete | Error

record import_options =
  visibility :: string
  language :: string
  autoTranscribe :: bool
  tags :: string
  categoryId :: string

record video_download =
  dl_quality :: string
  dl_type :: string
  dl_width :: int
  dl_height :: int
  dl_size :: int
  dl_link :: string
  dl_public_name :: string
  dl_rendition :: string

record picture_size =
  ps_width :: int
  ps_height :: int
  ps_link :: string

record vimeo_pictures =
  pic_active :: bool
  pic_type :: string
  pic_base_link :: string
  pic_sizes :: "picture_size list"

record VimeoVideoData =
  vd_name :: string
  vd_description :: string
  vd_duration :: int
  vd_width :: int
  vd_height :: int
  vd_download :: "video_download list option"
  vd_pictures :: "vimeo_pictures option"

text \<open>
  \<open>progress\<close> is a JavaScript number; the pipeline computes it as \<open>15 + percent * 0.35\<close>, read
  here in exact arithmetic.
\<close>

record ImportItem =
  item_id :: string
  vimeoId :: string
  stage :: ImportStage
  progress :: real
  statusText :: string
  vimeoData :: "VimeoVideoData option"
  igniteVideoId :: "string option"
  thumbnailUrl :: "string option"
  errorMessage :: "string option"
  options :: import_options

definition RESUMABLE_STAGES :: "ImportStage list" where
  "RESUMABLE_STAGES = [Polling]"

definition FINAL_STAGES :: "ImportStage list" where
  "FINAL_STAGES = [Complete, Error]"

subsection \<open>The remote side\<close>

text \<open>
  Every request of the pipeline is made at most once, so the environment of one run holds one
  answer per request: the value the promise resolves to, or the error it rejects with. The
  progress events of the two transfers are \<open>(loaded, total)\<close> pairs. \<open>formatBytes\<close> goes
  through \<open>Math.log\<close> and \<open>toFixed\<close> and only feeds the status text; it is a parameter.
\<close>

record existing_doc =
  doc_id :: string
  doc_title :: string

record create_result =
  cr_videoId :: string
  cr_signedUrl :: string

type_synonym blob = "nat list"

record import_env =
  existingResp :: "js_error + existing_doc list"
  vimeoResp :: "js_error + VimeoVideoData"
  videoResp :: "js_error + blob"
  downloadEvents :: "(nat \<times> nat option) list"
  createResp :: "js_error + create_result"
  uploadEvents :: "(nat \<times> nat option) list"
  uploadResp :: "js_error + unit"
  thumbGetResp :: "js_error + blob"
  thumbPutResp :: "js_error + string option"
  formatBytes :: "int \<Rightarrow> string"

datatype request =
  FindExisting string
  | GetVimeoVideo string
  | DownloadVideo string
  | CreateVideo string string
  | UploadVideo string
  | DownloadThumbnail string
  | UploadThumbnail string

subsection \<open>extractAxiosError\<close>

definition extractAxiosError :: "js_error \<Rightarrow> string" where
  "extractAxiosError err =
     (case err_response err of
        Some r \<Rightarrow>
          dec_int (err_status r) @ '': '' @
            or_else
              (case err_data r of
                 Some b \<Rightarrow> or_else (body_message b) (or_else (body_error b) (body_json b))
               | None \<Rightarrow> [])
              ''Request failed''
      | None \<Rightarrow>
          (if err_request err then ''No response from server''
           else or_else (err_message err) ''Unknown error''))"

subsection \<open>checkExistingVimeoImport\<close>

text \<open>
  Lines 360--386. The result is the first document when there is one (\<open>exists: true\<close>); a
  rejected request is caught inside the function and answers \<open>exists: false\<close>.
\<close>

definition checkExistingVimeoImport :: "import_env \<Rightarrow> existing_doc option" where
  "checkExistingVimeoImport env =
     (case existingResp env of
        Inr (d # ds) \<Rightarrow> Some d
      | Inr [] \<Rightarrow> None
      | Inl e \<Rightarrow> None)"

subsection \<open>runImport\<close>

text \<open>
  A run is the sequence of \<open>updateImport\<close> updaters it applies to its item, the requests it
  sends, and how it ends: with \<open>pollVideoStatus(id, igniteVideoId)\<close>, or in the \<open>catch\<close>
  block (\<open>poll = None\<close>).
\<close>

record import_run =
  updates :: "(ImportItem \<Rightarrow> ImportItem) list"
  requests :: "request list"
  poll :: "string option"

definition catch_error ::
  "(ImportItem \<Rightarrow> ImportItem) list \<Rightarrow> request list \<Rightarrow> js_error \<Rightarrow> import_run" where
  "catch_error us qs e =
     \<lparr>updates = us @
        [\<lambda>prev. prev\<lparr>stage := Error, errorMessage := Some (extractAxiosError e),
                      statusText := ''Failed''\<rparr>],
      requests = qs, poll = None\<rparr>"

text \<open>\<open>Math.round((loaded / total) * 100)\<close>.\<close>

definition percent_of :: "nat \<Rightarrow> nat \<Rightarrow> int" where
  "percent_of loaded tot = \<lfloor>real loaded / real tot * 100 + 1 / 2\<rfloor>"

definition progress_updates ::
  "real \<Rightarrow> string \<Rightarrow> (nat \<times> nat option) list \<Rightarrow> (ImportItem \<Rightarrow> ImportItem) list" where
  "progress_updates base label evts =
     concat (map (\<lambda>(loaded, tot).
        (case tot of
           None \<Rightarrow> []
         | Some t \<Rightarrow>
             (if t = 0 then []
              else [\<lambda>prev. prev\<lparr>progress := base + real_of_int (percent_of loaded t) * 0.35,
                                  statusText := label @ dec_int (percent_of loaded t) @ ''%''\<rparr>])))
        evts)"

definition larger_dl :: "video_download \<Rightarrow> video_download \<Rightarrow> video_download" where
  "larger_dl largest current = (if dl_size current > dl_size largest then current else largest)"

definition wider :: "picture_size \<Rightarrow> picture_size \<Rightarrow> picture_size" where
  "wider largest current = (if ps_width current > ps_width largest then current else largest)"

text \<open>
  Lines 576--589: the rendition to download, or the error thrown. \<open>reduce\<close> without an initial
  value starts from the first element.
\<close>

definition select_download :: "VimeoVideoData \<Rightarrow> js_error + video_download" where
  "select_download vd =
     (case vd_download vd of
        None \<Rightarrow> Inl (new_Error ''No download links available.'')
      | Some [] \<Rightarrow> Inl (new_Error ''No download links available.'')
      | Some (x # xs) \<Rightarrow>
          (case filter (\<lambda>d. dl_public_name d \<noteq> ''source'') (x # xs) of
             [] \<Rightarrow> Inl (new_Error ''No suitable download rendition found.'')
           | d # ds \<Rightarrow> Inr (foldl larger_dl d ds)))"

text \<open>Step 5, lines 656--693: the thumbnail; its failures are caught and logged.\<close>

definition thumbnail_step ::
  "import_env \<Rightarrow> VimeoVideoData \<Rightarrow> string \<Rightarrow>
     (ImportItem \<Rightarrow> ImportItem) list \<times> request list \<times> string option" where
  "thumbnail_step env vd videoId =
     (case vd_pictures vd of
        None \<Rightarrow> ([], [], None)
      | Some pics \<Rightarrow>
          (case pic_sizes pics of
             [] \<Rightarrow> ([], [], None)
           | p # ps \<Rightarrow>
               (if \<not> pic_active pics then ([], [], None)
                else
                  (let u = (\<lambda>prev. prev\<lparr>stage := Uploading_thumbnail,
                                statusText := ''Uploading thumbnail...'', progress := 92\<rparr>);
                       largestThumb = foldl wider p ps
                   in case thumbGetResp env of
                        Inl e \<Rightarrow> ([u], [DownloadThumbnail (ps_link largestThumb)], None)
                      | Inr b \<Rightarrow>
                          (case thumbPutResp env of
                             Inl e \<Rightarrow>
                               ([u],
                                [DownloadThumbnail (ps_link largestThumb), UploadThumbnail videoId],
                                None)
                           | Inr url \<Rightarrow>
                               ([u, \<lambda>prev. prev\<lparr>thumbnailUrl := url, progress := 95\<rparr>],
                                [DownloadThumbnail (ps_link largestThumb), UploadThumbnail videoId],
                                url))))))"

text \<open>Steps 4 to 6, after the record was created.\<close>

definition upload_steps ::
  "import_env \<Rightarrow> VimeoVideoData \<Rightarrow> create_result \<Rightarrow>
     (ImportItem \<Rightarrow> ImportItem) list \<Rightarrow> request list \<Rightarrow> import_run" where
  "upload_steps env vd cr us qs =
     (let us1 = us @
            [\<lambda>prev. prev\<lparr>igniteVideoId := Some (cr_videoId cr), progress := 55\<rparr>,
             \<lambda>prev. prev\<lparr>stage := Uploading, statusText := ''Uploading to Ignite...''\<rparr>]
            @ progress_updates 55 ''Uploading... '' (uploadEvents env);
          qs1 = qs @ [UploadVideo (cr_signedUrl cr)]
      in case uploadResp env of
           Inl e \<Rightarrow> catch_error us1 qs1 e
         | Inr _ \<Rightarrow>
             (case thumbnail_step env vd (cr_videoId cr) of
                (tus, tqs, thumb) \<Rightarrow>
                  \<lparr>updates = us1 @ tus @
                     [\<lambda>prev. prev\<lparr>stage := Polling, statusText := ''Processing...'',
                                   progress := 98, thumbnailUrl := thumb\<rparr>],
                   requests = qs1 @ tqs,
                   poll = Some (cr_videoId cr)\<rparr>))"

text \<open>Steps 2 and 3: the download and the creation of the record.\<close>

definition download_steps ::
  "import_env \<Rightarrow> ImportItem \<Rightarrow> VimeoVideoData \<Rightarrow> video_download \<Rightarrow>
     (ImportItem \<Rightarrow> ImportItem) list \<Rightarrow> request list \<Rightarrow> import_run" where
  "download_steps env importItem vd selectedDownload us qs =
     (let us1 = us @
            [\<lambda>prev. prev\<lparr>stage := Downloading,
                statusText := ''Downloading ('' @ formatBytes env (dl_size selectedDownload) @ '')...'',
                progress := 15\<rparr>]
            @ progress_updates 15 ''Downloading... '' (downloadEvents env);
          qs1 = qs @ [DownloadVideo (dl_link selectedDownload)]
      in case videoResp env of
           Inl e \<Rightarrow> catch_error us1 qs1 e
         | Inr videoBlob \<Rightarrow>
             (let us2 = us1 @
                    [\<lambda>prev. prev\<lparr>stage := Creating_video,
                        statusText := ''Creating video in Ignite...'', progress := 52\<rparr>];
                  qs2 = qs1 @ [CreateVideo (vd_name vd) (vimeoId importItem)]
              in case createResp env of
                   Inl e \<Rightarrow> catch_error us2 qs2 e
                 | Inr cr \<Rightarrow> upload_steps env vd cr us2 qs2))"

text \<open>Step 1: the metadata and the choice of the rendition.\<close>

definition fetch_steps ::
  "import_env \<Rightarrow> ImportItem \<Rightarrow> (ImportItem \<Rightarrow> ImportItem) list \<Rightarrow> request list \<Rightarrow>
     import_run" where
  "fetch_steps env importItem us qs =
     (let us1 = us @
            [\<lambda>prev. prev\<lparr>stage := Fetching_vimeo, statusText := ''Fetching Vimeo data...'',
                          progress := 5\<rparr>];
          qs1 = qs @ [GetVimeoVideo (vimeoId importItem)]
      in case vimeoResp env of
           Inl e \<Rightarrow> catch_error us1 qs1 e
         | Inr vd \<Rightarrow>
             (let us2 = us1 @ [\<lambda>prev. prev\<lparr>vimeoData := Some vd, progress := 10\<rparr>]
              in case select_download vd of
                   Inl e \<Rightarrow> catch_error us2 qs1 e
                 | Inr selectedDownload \<Rightarrow>
                     download_steps env importItem vd selectedDownload us2 qs1))"

definition already_imported :: "existing_doc \<Rightarrow> string" where
  "already_imported d =
     ''Already imported (ID: '' @ doc_id d @ '', Title: \"'' @ doc_title d @ ''\")''"

definition runImport :: "import_env \<Rightarrow> ImportItem \<Rightarrow> import_run" where
  "runImport env importItem =
     (let us0 = [\<lambda>prev. prev\<lparr>statusText := ''Checking for existing import...''\<rparr>];
          qs0 = [FindExisting (vimeoId importItem)]
      in case checkExistingVimeoImport env of
           Some d \<Rightarrow> catch_error us0 qs0 (new_Error (already_imported d))
         | None \<Rightarrow> fetch_steps env importItem us0 qs0)"

text \<open>The states the item goes through: each updater applied in turn.\<close>

fun states_of :: "ImportItem \<Rightarrow> (ImportItem \<Rightarrow> ImportItem) list \<Rightarrow> ImportItem list" where
  "states_of item [] = [item]"
| "states_of item (u # us) = item # states_of (u item) us"

definition final_item :: "ImportItem \<Rightarrow> import_run \<Rightarrow> ImportItem" where
  "final_item item r = foldl (\<lambda>it u. u it) item (updates r)"

section \<open>The importer: queue, poll timers and restart\<close>

subsection \<open>State\<close>

text \<open>
  The component state that the queue logic reads and writes: the \<open>imports\<close> array, the
  \<open>pollTimersRef\<close> map, the \<open>resumedPollingIds\<close> set and the two tokens. Beside it stands
  what the browser holds: the live intervals (timer id, with the \<open>importId\<close> and \<open>videoId\<close> its
  callback closes over), the next id \<open>setInterval\<close> hands out (ids are positive), and the
  status requests sent and not yet answered.
\<close>

record app_state =
  importsQ :: "ImportItem list"
  pollTimers :: "string \<rightharpoonup> nat"
  resumedPollingIds :: "string set"
  igniteToken :: string
  vimeoToken :: string
  intervals :: "(nat \<times> string \<times> string) list"
  nextTimerId :: nat
  pending :: "(string \<times> string) list"

subsection \<open>updateImport and the timers\<close>

definition updateImport :: "string \<Rightarrow> (ImportItem \<Rightarrow> ImportItem) \<Rightarrow> app_state \<Rightarrow> app_state" where
  "updateImport i updater s =
     s\<lparr>importsQ := map (\<lambda>item. if item_id item = i then updater item else item) (importsQ s)\<rparr>"

definition clearInterval :: "nat \<Rightarrow> app_state \<Rightarrow> app_state" where
  "clearInterval t s = s\<lparr>intervals := filter (\<lambda>iv. fst iv \<noteq> t) (intervals s)\<rparr>"

text \<open>
  \<open>const t = pollTimersRef.current.get(id); if (t) window.clearInterval(t);
  pollTimersRef.current.delete(id);\<close> as in the poll callback.
\<close>

definition clear_and_delete :: "string \<Rightarrow> app_state \<Rightarrow> app_state" where
  "clear_and_delete i s =
     (let s1 = (case pollTimers s i of
                  Some t \<Rightarrow> (if t \<noteq> 0 then clearInterval t s else s)
                | None \<Rightarrow> s)
      in s1\<lparr>pollTimers := (pollTimers s1)(i := None)\<rparr>)"

text \<open>
  \<open>if (t) { window.clearInterval(t); pollTimersRef.current.delete(id); }\<close> as in the
  \<open>catch\<close> block of \<open>runImport\<close>, in \<open>removeImport\<close> and in \<open>clearFinished\<close>.
\<close>

definition clear_if_set :: "string \<Rightarrow> app_state \<Rightarrow> app_state" where
  "clear_if_set i s =
     (case pollTimers s i of
        Some t \<Rightarrow>
          (if t \<noteq> 0 then (clearInterval t s)\<lparr>pollTimers := (pollTimers s)(i := None)\<rparr> else s)
      | None \<Rightarrow> s)"

subsection \<open>pollVideoStatus\<close>

text \<open>
  Lines 465--520. The call clears the timer registered for the item, starts \<open>run()\<close>, which
  sends a status request and suspends, and registers a new interval.
\<close>

definition pollVideoStatus :: "string \<Rightarrow> string \<Rightarrow> app_state \<Rightarrow> app_state" where
  "pollVideoStatus importId videoId s =
     (let s1 = (case pollTimers s importId of
                  Some existing \<Rightarrow> (if existing \<noteq> 0 then clearInterval existing s else s)
                | None \<Rightarrow> s);
          s2 = s1\<lparr>pending := pending s1 @ [(importId, videoId)]\<rparr>;
          timerId = nextTimerId s2
      in s2\<lparr>intervals := intervals s2 @ [(timerId, importId, videoId)],
            nextTimerId := Suc timerId,
            pollTimers := (pollTimers s2)(importId \<mapsto> timerId)\<rparr>)"

definition upper_char :: "char \<Rightarrow> char" where
  "upper_char c =
     (case map_of (zip ''abcdefghijklmnopqrstuvwxyz'' ''ABCDEFGHIJKLMNOPQRSTUVWXYZ'') c of
        Some u \<Rightarrow> u
      | None \<Rightarrow> c)"

definition toUpperCase :: "string \<Rightarrow> string" where
  "toUpperCase s = map upper_char s"

definition doneStatuses :: "string list" where
  "doneStatuses = [''COMPLETE'', ''COMPLETED'', ''READY'', ''ENCODED'']"

definition errorStatuses :: "string list" where
  "errorStatuses = [''FAILED'', ''ERROR'']"

text \<open>
  The rest of \<open>run\<close>, when its request is answered: \<open>Inr\<close> carries \<open>data.status\<close> (empty when
  absent), \<open>Inl\<close> the rejection, which is logged.
\<close>

definition poll_answer :: "string \<Rightarrow> js_error + string \<Rightarrow> app_state \<Rightarrow> app_state" where
  "poll_answer importId answer s =
     (case answer of
        Inl e \<Rightarrow> s
      | Inr raw \<Rightarrow>
          (let status = toUpperCase raw;
               s1 = updateImport importId
                      (\<lambda>prev. prev\<lparr>statusText := ''Processing: '' @ status\<rparr>) s
           in if status \<in> set doneStatuses then
                clear_and_delete importId
                  (updateImport importId
                     (\<lambda>prev. prev\<lparr>stage := Complete, statusText := ''Import complete!'',
                                   progress := 100\<rparr>) s1)
              else if status \<in> set errorStatuses then
                clear_and_delete importId
                  (updateImport importId
                     (\<lambda>prev. prev\<lparr>stage := Error,
                                   errorMessage := Some (''Encoding failed: '' @ status)\<rparr>) s1)
              else s1))"

subsection \<open>Restart\<close>

text \<open>Lines 135--159: what is made of the stored queue.\<close>

definition interrupted :: "ImportItem \<Rightarrow> ImportItem" where
  "interrupted item =
     item\<lparr>stage := Error, errorMessage := Some ''Import was interrupted. Please try again.'',
          statusText := ''Interrupted''\<rparr>"

definition processedImports :: "ImportItem list \<Rightarrow> ImportItem list" where
  "processedImports parsed =
     map (\<lambda>item.
        if stage item \<in> set FINAL_STAGES \<or> stage item \<in> set RESUMABLE_STAGES then item
        else interrupted item) parsed"

text \<open>Lines 523--539: the effect that resumes polling.\<close>

definition resume_item :: "app_state \<Rightarrow> ImportItem \<Rightarrow> app_state" where
  "resume_item s item =
     (case igniteVideoId item of
        Some v \<Rightarrow>
          (if stage item = Polling \<and> v \<noteq> [] \<and> item_id item \<notin> resumedPollingIds s
              \<and> pollTimers s (item_id item) = None
           then pollVideoStatus (item_id item) v
                  (s\<lparr>resumedPollingIds := insert (item_id item) (resumedPollingIds s)\<rparr>)
           else s)
      | None \<Rightarrow> s)"

definition resumeEffect :: "app_state \<Rightarrow> app_state" where
  "resumeEffect s = (if igniteToken s = [] then s else foldl resume_item s (importsQ s))"

text \<open>
  What \<open>localStorage\<close> holds at start: \<open>stored_imports\<close> is the parsed queue, \<open>None\<close> when the
  key is absent or does not parse.
\<close>

record stored =
  stored_vimeo_token :: "string option"
  stored_ignite_token :: "string option"
  stored_imports :: "ImportItem list option"

definition loaded :: "stored \<Rightarrow> app_state" where
  "loaded st =
     \<lparr>importsQ = (case stored_imports st of Some parsed \<Rightarrow> processedImports parsed | None \<Rightarrow> []),
      pollTimers = Map.empty,
      resumedPollingIds = {},
      igniteToken = (case stored_ignite_token st of Some t \<Rightarrow> t | None \<Rightarrow> []),
      vimeoToken = (case stored_vimeo_token st of Some t \<Rightarrow> t | None \<Rightarrow> []),
      intervals = [],
      nextTimerId = 1,
      pending = []\<rparr>"

definition mount :: "stored \<Rightarrow> app_state" where
  "mount st = resumeEffect (loaded st)"

subsection \<open>User actions and callbacks\<close>

definition canImport :: "app_state \<Rightarrow> string \<Rightarrow> bool" where
  "canImport s vimeoIdInput =
     (trim (vimeoToken s) \<noteq> [] \<and> trim (igniteToken s) \<noteq> [] \<and> trim vimeoIdInput \<noteq> [])"

definition newImport :: "nat \<Rightarrow> string \<Rightarrow> import_options \<Rightarrow> ImportItem" where
  "newImport now vimeoIdInput opts =
     \<lparr>item_id = dec_nat now @ ''-'' @ trim vimeoIdInput,
      vimeoId = trim vimeoIdInput,
      stage = Checking,
      progress = 0,
      statusText = ''Starting...'',
      vimeoData = None,
      igniteVideoId = None,
      thumbnailUrl = None,
      errorMessage = None,
      options = opts\<rparr>"

text \<open>
  The effect of a whole run of \<open>runImport\<close> on the state. Its \<open>await\<close>s only separate updates
  of its own item, and the item cannot be removed before it polls or fails.
\<close>

definition apply_run :: "string \<Rightarrow> import_run \<Rightarrow> app_state \<Rightarrow> app_state" where
  "apply_run i r s =
     (let s1 = foldl (\<lambda>st u. updateImport i u st) s (updates r)
      in case poll r of
           Some videoId \<Rightarrow> pollVideoStatus i videoId s1
         | None \<Rightarrow> clear_if_set i s1)"

definition startImport ::
  "nat \<Rightarrow> string \<Rightarrow> import_options \<Rightarrow> import_env \<Rightarrow> app_state \<Rightarrow> app_state" where
  "startImport now vimeoIdInput opts env s =
     (if \<not> canImport s vimeoIdInput then s
      else
        (let item = newImport now vimeoIdInput opts
         in apply_run (item_id item) (runImport env item)
              (s\<lparr>importsQ := item # importsQ s\<rparr>)))"

definition removeImport :: "string \<Rightarrow> app_state \<Rightarrow> app_state" where
  "removeImport i s =
     (let s1 = clear_if_set i s
      in s1\<lparr>importsQ := filter (\<lambda>item. item_id item \<noteq> i) (importsQ s1)\<rparr>)"

definition clearFinished :: "app_state \<Rightarrow> app_state" where
  "clearFinished s =
     (let s1 = foldl (\<lambda>st item.
                  if stage item = Complete \<or> stage item = Error then clear_if_set (item_id item) st
                  else st) s (importsQ s)
      in s1\<lparr>importsQ := filter (\<lambda>item. stage item \<noteq> Complete \<and> stage item \<noteq> Error) (importsQ s1)\<rparr>)"

subsection \<open>Events\<close>

text \<open>
  One event is one uninterrupted piece of JavaScript, followed by the resume effect when it
  set the queue or the token. \<open>Tick t\<close> is interval \<open>t\<close> firing: \<open>run\<close> sends its request.
  \<open>Answer k a\<close> is the \<open>k\<close>-th outstanding status request being answered with \<open>a\<close>. An event
  that cannot happen in the state (a timer that is not live, no such request) gives \<open>None\<close>.
  A restart is a new \<open>mount\<close>, on what was stored; the cleanup on unmount ends the component
  and is not an event.
\<close>

datatype event =
  StartImport nat string import_options import_env
  | Tick nat
  | Answer nat "js_error + string"
  | RemoveImport string
  | ClearFinished
  | SetIgniteToken string
  | SetVimeoToken string

fun step :: "event \<Rightarrow> app_state \<Rightarrow> app_state option" where
  "step (StartImport now vimeoIdInput opts env) s =
     (if canImport s vimeoIdInput
      then Some (resumeEffect (startImport now vimeoIdInput opts env s))
      else Some s)"
| "step (Tick t) s =
     (case filter (\<lambda>iv. fst iv = t) (intervals s) of
        [] \<Rightarrow> None
      | iv # _ \<Rightarrow> Some (s\<lparr>pending := pending s @ [snd iv]\<rparr>))"
| "step (Answer k a) s =
     (if k < length (pending s)
      then (case a of
              Inl e \<Rightarrow>
                Some (poll_answer (fst (pending s ! k)) a
                  (s\<lparr>pending := take k (pending s) @ drop (Suc k) (pending s)\<rparr>))
            | Inr raw \<Rightarrow>
                Some (resumeEffect
                  (poll_answer (fst (pending s ! k)) a
                     (s\<lparr>pending := take k (pending s) @ drop (Suc k) (pending s)\<rparr>))))
      else None)"
| "step (RemoveImport i) s = Some (resumeEffect (removeImport i s))"
| "step ClearFinished s = Some (resumeEffect (clearFinished s))"
| "step (SetIgniteToken t) s = Some (resumeEffect (s\<lparr>igniteToken := t\<rparr>))"
| "step (SetVimeoToken t) s = Some (s\<lparr>vimeoToken := t\<rparr>)"

fun run_events :: "event list \<Rightarrow> app_state \<Rightarrow> app_state option" where
  "run_events [] s = Some s"
| "run_events (e # es) s = (case step e s of None \<Rightarrow> None | Some s' \<Rightarrow> run_events es s')"

text \<open>The live timers whose callback polls for item \<open>i\<close>.\<close>

definition live_timers :: "app_state \<Rightarrow> string \<Rightarrow> nat list" where
  "live_timers s i = map fst (filter (\<lambda>iv. fst (snd iv) = i) (intervals s))"

section \<open>Notions used in the statements\<close>

subsection \<open>Video browser\<close>

text \<open>
  The size the specification describes: the largest rendition among those whose rendition
  class is not \<open>source\<close>, the first one on ties; nothing when no such rendition exists.
\<close>

definition largest_non_source :: "raw_download list \<Rightarrow> int option" where
  "largest_non_source ds =
     (case filter (\<lambda>d. rd_rendition d \<noteq> ''source'') ds of
        [] \<Rightarrow> None
      | d # rest \<Rightarrow> Some (rd_size (foldl larger d rest)))"

definition is_quota :: "server_reply \<Rightarrow> bool" where
  "is_quota rep = (case outcome rep of Inl e \<Rightarrow> is_429 e | Inr d \<Rightarrow> False)"

definition quota_no_header :: "server_reply \<Rightarrow> bool" where
  "quota_no_header rep =
     (case outcome rep of
        Inl e \<Rightarrow>
          (case err_response e of
             Some r \<Rightarrow> err_status r = 429 \<and> err_retry_after r = None
           | None \<Rightarrow> False)
      | Inr d \<Rightarrow> False)"

text \<open>The wait that \<open>rateLimitedRequest\<close> makes before its first attempt, if any.\<close>

definition spacing_wait :: "browser_state \<Rightarrow> int option list" where
  "spacing_wait st =
     (if clock st - lastRequestTime st < REQUEST_DELAY_MS
      then [Some (REQUEST_DELAY_MS - (clock st - lastRequestTime st))] else [])"

text \<open>
  A page request that succeeds, possibly after retries, and names a next page; and a page
  request of which every attempt up to the ceiling is rejected with status 429.
\<close>

definition page_succeeds_with_next :: "(string \<Rightarrow> nat \<Rightarrow> server_reply) \<Rightarrow> bool" where
  "page_succeeds_with_next srv =
     (\<forall>url st. case fst (rateLimitedRequest (srv url) st) of
        Inr d \<Rightarrow> next_url d \<noteq> None
      | Inl e \<Rightarrow> False)"

definition page_always_quota :: "(string \<Rightarrow> nat \<Rightarrow> server_reply) \<Rightarrow> bool" where
  "page_always_quota srv = (\<forall>url. \<forall>a\<le>MAX_RETRIES. is_quota (srv url a))"

definition quota_failure_message :: string where
  "quota_failure_message = ''Error: Rate limit exceeded. Please wait a few minutes and try again.''"

subsection \<open>Example inputs: video browser\<close>

definition ex_downloads :: "raw_download list" where
  "ex_downloads =
     [\<lparr>rd_quality = ''source'', rd_rendition = ''source'', rd_size = 10, rd_width = 1920,
       rd_height = 1080\<rparr>,
      \<lparr>rd_quality = ''sd'', rd_rendition = ''540p'', rd_size = 8, rd_width = 960,
       rd_height = 540\<rparr>,
      \<lparr>rd_quality = ''hd'', rd_rendition = ''720p'', rd_size = 9, rd_width = 1280,
       rd_height = 720\<rparr>]"

definition ex_folder :: parent_folder where
  "ex_folder =
     \<lparr>pf_uri = ''/users/1/projects/30'', pf_name = ''C'',
      pf_ancestor_path =
        Some [\<lparr>anc_uri = ''/users/1/projects/20'', anc_name = ''B''\<rparr>,
              \<lparr>anc_uri = ''/users/1/projects/10'', anc_name = ''A''\<rparr>]\<rparr>"

definition ex_video :: VimeoVideoRaw where
  "ex_video =
     \<lparr>raw_uri = ''/videos/123'', raw_name = ''Talk'', raw_type = ''video'',
      raw_download = Some ex_downloads, raw_parent_folder = Some ex_folder\<rparr>"

definition ex_quota_error :: js_error where
  "ex_quota_error =
     \<lparr>err_message = ''Request failed with status code 429'',
      err_response = Some \<lparr>err_status = 429, err_retry_after = None, err_data = None\<rparr>,
      err_request = True\<rparr>"

definition ex_page :: page_response where
  "ex_page = \<lparr>pg_total = 150, pg_data = Some [ex_video], pg_next = Some ''/me/videos?page=2''\<rparr>"

definition ex_retry_server :: "nat \<Rightarrow> server_reply" where
  "ex_retry_server a =
     (if a < 3 then \<lparr>latency = 40, outcome = Inl ex_quota_error\<rparr>
      else \<lparr>latency = 40, outcome = Inr ex_page\<rparr>)"

definition ex_browser :: browser_state where
  "ex_browser =
     \<lparr>videos = [], folders = [],
      fetch_progress = \<lparr>fp_status = Status_idle, fp_currentPage = 0, fp_totalPages = 0,
        fp_totalVideos = 0, fp_errorMessage = None\<rparr>,
      lastRequestTime = 0, clock = 1000000, delays = [], sent = 0\<rparr>"

text \<open>An upstream that serves the first page and then rejects every attempt.\<close>

definition ex_server :: "nat \<Rightarrow> string \<Rightarrow> nat \<Rightarrow> server_reply" where
  "ex_server k url a =
     (if k = 0 then \<lparr>latency = 40, outcome = Inr ex_page\<rparr>
      else \<lparr>latency = 40, outcome = Inl ex_quota_error\<rparr>)"

subsection \<open>Importer\<close>

text \<open>A run that ends in the \<open>catch\<close> block with error \<open>e\<close>, its last request being \<open>q\<close>.\<close>

definition ends_in_error :: "ImportItem \<Rightarrow> import_run \<Rightarrow> js_error \<Rightarrow> request \<Rightarrow> bool" where
  "ends_in_error item r e q =
     (poll r = None \<and> stage (final_item item r) = Error \<and>
      errorMessage (final_item item r) = Some (extractAxiosError e) \<and>
      (\<exists>qs. requests r = qs @ [q]))"

definition non_source :: "video_download list \<Rightarrow> video_download list" where
  "non_source dls = filter (\<lambda>d. dl_public_name d \<noteq> ''source'') dls"

subsection \<open>Example inputs: importer\<close>

definition ex_rendition :: "int \<Rightarrow> string \<Rightarrow> video_download" where
  "ex_rendition n nm =
     \<lparr>dl_quality = ''hd'', dl_type = ''video/mp4'', dl_width = 1280, dl_height = 720,
      dl_size = n, dl_link = ''https://player.vimeo.com/play/'' @ nm, dl_public_name = nm,
      dl_rendition = nm\<rparr>"

definition ex_renditions :: "video_download list" where
  "ex_renditions = [ex_rendition 10 ''source'', ex_rendition 8 ''540p'', ex_rendition 9 ''720p'']"

definition ex_vimeo_data :: VimeoVideoData where
  "ex_vimeo_data =
     \<lparr>vd_name = ''Talk'', vd_description = [], vd_duration = 60, vd_width = 1280,
      vd_height = 720, vd_download = Some ex_renditions, vd_pictures = None\<rparr>"

definition ex_options :: import_options where
  "ex_options =
     \<lparr>visibility = ''private'', language = [], autoTranscribe = False, tags = [],
      categoryId = []\<rparr>"

definition ex_item :: ImportItem where
  "ex_item = newImport 1700000000000 ''123'' ex_options"

definition ex_rejection :: js_error where
  "ex_rejection =
     \<lparr>err_message = ''Request failed with status code 500'',
      err_response = Some \<lparr>err_status = 500, err_retry_after = None,
        err_data = Some \<lparr>body_message = ''Internal error'', body_error = [], body_json = []\<rparr>\<rparr>,
      err_request = True\<rparr>"

definition ex_env :: import_env where
  "ex_env =
     \<lparr>existingResp = Inr [],
      vimeoResp = Inr ex_vimeo_data,
      videoResp = Inr [1, 2, 3],
      downloadEvents = [],
      createResp = Inr \<lparr>cr_videoId = ''v1'', cr_signedUrl = ''https://upload.example/v1''\<rparr>,
      uploadEvents = [],
      uploadResp = Inr (),
      thumbGetResp = Inr [4],
      thumbPutResp = Inr (Some ''https://img.example/t.jpg''),
      formatBytes = (\<lambda>n. dec_int n @ '' B'')\<rparr>"

definition ex_existing :: existing_doc where
  "ex_existing = \<lparr>doc_id = ''abc'', doc_title = ''Old talk''\<rparr>"

text \<open>
  What the duplicate pre-check (lines 360--386) receives from a destination that holds the
  records \<open>tagged\<close> for the source id: the records when the request is answered, the
  rejection when it fails.
\<close>

definition precheck_answer ::
  "existing_doc list \<Rightarrow> js_error option \<Rightarrow> js_error + existing_doc list" where
  "precheck_answer tagged failure = (case failure of None \<Rightarrow> Inr tagged | Some e \<Rightarrow> Inl e)"

definition ex_store :: stored where
  "ex_store =
     \<lparr>stored_vimeo_token = Some ''vimeo-token'', stored_ignite_token = Some ''ignite-token'',
      stored_imports = None\<rparr>"

text \<open>The state after one import was started and ran up to polling.\<close>

definition ex_started :: app_state where
  "ex_started = startImport 1700000000000 ''123'' ex_options ex_env (mount ex_store)"

subsection \<open>Restart and timers\<close>

text \<open>
  The item ids whose polling the restart resumes: a destination token is stored, and the
  stored queue holds an item with that id in stage \<open>polling\<close> that carries a destination id.
\<close>

definition resumable_in :: "ImportItem list \<Rightarrow> string set" where
  "resumable_in xs =
     {i. \<exists>x\<in>set xs. item_id x = i \<and> stage x = Polling \<and> truthy (igniteVideoId x)}"

definition resumable :: "stored \<Rightarrow> string \<Rightarrow> bool" where
  "resumable st i =
     (truthy (stored_ignite_token st) \<and>
      i \<in> resumable_in (case stored_imports st of Some p \<Rightarrow> p | None \<Rightarrow> []))"

text \<open>The status requests outstanding for item \<open>i\<close>.\<close>

definition pending_for :: "app_state \<Rightarrow> string \<Rightarrow> (string \<times> string) list" where
  "pending_for s i = filter (\<lambda>p. fst p = i) (pending s)"

text \<open>
  What holds of the state while the resume effect walks the queue, started from a state
  without timers: after the items \<open>xs\<close>, the resumed ids and the registered ids are the
  resumable ids of \<open>xs\<close>, and each has one live timer and one outstanding request.
\<close>

definition resumed_upto :: "ImportItem list \<Rightarrow> app_state \<Rightarrow> bool" where
  "resumed_upto xs s =
     (resumedPollingIds s = resumable_in xs \<and> dom (pollTimers s) = resumable_in xs \<and>
      (\<forall>i. length (live_timers s i) = (if i \<in> resumable_in xs then 1 else 0)) \<and>
      (\<forall>i. length (pending_for s i) = (if i \<in> resumable_in xs then 1 else 0)))"

definition ex_polling_item :: ImportItem where
  "ex_polling_item =
     ex_item\<lparr>stage := Polling, progress := 98, statusText := ''Processing...'',
       igniteVideoId := Some ''v1''\<rparr>"

definition ex_uploading_item :: ImportItem where
  "ex_uploading_item =
     (newImport 1700000000001 ''456'' ex_options)
       \<lparr>stage := Uploading, progress := 60, statusText := ''Uploading... 14%'',
        igniteVideoId := Some ''v2''\<rparr>"

text \<open>A stored queue with its tokens, and the same queue without the destination token.\<close>

definition ex_store_queue :: stored where
  "ex_store_queue = ex_store\<lparr>stored_imports := Some [ex_uploading_item, ex_polling_item]\<rparr>"

definition ex_store_no_token :: stored where
  "ex_store_no_token = ex_store_queue\<lparr>stored_ignite_token := None\<rparr>"

text \<open>A stored queue, with its tokens, whose item in \<open>polling\<close> has no destination id.\<close>

definition ex_store_no_dest :: stored where
  "ex_store_no_dest =
     ex_store\<lparr>stored_imports := Some [ex_polling_item\<lparr>igniteVideoId := None\<rparr>]\<rparr>"

text \<open>
  A stored queue, with its tokens, that holds two items with the same id: one in \<open>complete\<close>
  and one in \<open>polling\<close>.
\<close>

definition ex_store_same_id :: stored where
  "ex_store_same_id =
     ex_store\<lparr>stored_imports := Some [ex_polling_item\<lparr>stage := Complete\<rparr>, ex_polling_item]\<rparr>"

subsection \<open>The timer invariant\<close>

text \<open>
  The registry and the browser's intervals agree: every live interval is the one registered
  for its item, timer ids are not shared, every registered id is a live interval with a
  positive id, and the ids not yet handed out are positive and above all live ones.
\<close>

definition timers_ok :: "app_state \<Rightarrow> bool" where
  "timers_ok s =
     ((\<forall>iv\<in>set (intervals s). pollTimers s (fst (snd iv)) = Some (fst iv) \<and> fst iv < nextTimerId s) \<and>
      distinct (map fst (intervals s)) \<and>
      (\<forall>i t. pollTimers s i = Some t \<longrightarrow> t \<noteq> 0 \<and> (\<exists>v. (t, i, v) \<in> set (intervals s))) \<and>
      0 < nextTimerId s)"

text \<open>Items that share an id are in the same stage.\<close>

definition same_stage :: "ImportItem list \<Rightarrow> bool" where
  "same_stage q = (\<forall>x\<in>set q. \<forall>y\<in>set q. item_id x = item_id y \<longrightarrow> stage x = stage y)"

text \<open>An item in \<open>polling\<close> without a registered timer has not been resumed before.\<close>

definition unresumed_ok :: "app_state \<Rightarrow> bool" where
  "unresumed_ok s =
     (\<forall>x\<in>set (importsQ s). stage x = Polling \<longrightarrow> pollTimers s (item_id x) = None \<longrightarrow>
        item_id x \<notin> resumedPollingIds s)"

text \<open>
  With a destination token set, every item in \<open>polling\<close> that carries a destination id has a
  registered timer.
\<close>

definition polling_covered :: "app_state \<Rightarrow> bool" where
  "polling_covered s =
     (\<forall>x\<in>set (importsQ s). stage x = Polling \<longrightarrow> truthy (igniteVideoId x) \<longrightarrow>
        igniteToken s \<noteq> [] \<longrightarrow> pollTimers s (item_id x) \<noteq> None)"

definition pre_inv :: "app_state \<Rightarrow> bool" where
  "pre_inv s = (timers_ok s \<and> same_stage (importsQ s) \<and> unresumed_ok s)"

definition inv :: "app_state \<Rightarrow> bool" where
  "inv s = (pre_inv s \<and> polling_covered s)"

text \<open>An updater that leaves the id alone, and a run whose last update sets the stage.\<close>

definition keeps_id :: "(ImportItem \<Rightarrow> ImportItem) \<Rightarrow> bool" where
  "keeps_id u = (\<forall>x. item_id (u x) = item_id x)"

definition final_stage :: "import_run \<Rightarrow> ImportStage" where
  "final_stage r = (case poll r of None \<Rightarrow> Error | Some v \<Rightarrow> Polling)"

definition settles :: "import_run \<Rightarrow> bool" where
  "settles r = (\<exists>us u. updates r = us @ [u] \<and> (\<forall>x. stage (u x) = final_stage r))"

section \<open>Properties of the video browser\<close>

subsection \<open>File size\<close>

lemma larger_same: "larger d d = d"
  by (simp add: larger_def)

text \<open>
  When the first rendition of the list is not of the \<open>source\<close> class, the derived size is the
  one the specification describes.
\<close>

lemma file_size_first_not_source:
  "rd_rendition d \<noteq> ''source'' \<Longrightarrow> file_size_of (Some (d # ds)) = largest_non_source (d # ds)"
  by (simp add: file_size_of_def largest_non_source_def larger_same)

text \<open>
  C1. The claim: for a retained entry with a non-empty download list, \<open>fileSize\<close> is the size of
  the largest rendition not of the \<open>source\<close> class, and the size of a \<open>source\<close> rendition is
  never reported. The code starts its \<open>reduce\<close> from \<open>video.download[0]\<close>, unfiltered: for the
  list \<open>[source 10, 540p 8, 720p 9]\<close> the entry gets \<open>fileSize = 10\<close>, the size of the
  \<open>source\<close> rendition, where the claim says 9.
\<close>

theorem fileSize_source_first:
  "fileSize (video_info ex_video) = Some 10 \<and> largest_non_source ex_downloads = Some 9"
  by (simp add: video_info_def ex_video_def ex_downloads_def file_size_of_def
      largest_non_source_def larger_def)

subsection \<open>Folder path\<close>

lemma folder_path_of_join:
  "folder_path_of pf =
     join ''/''
       (map anc_name (rev (case pf_ancestor_path pf of Some a \<Rightarrow> a | None \<Rightarrow> [])) @ [pf_name pf])"
  by (simp add: folder_path_of_def split: option.splits list.splits)

text \<open>
  C10. For a video whose folder is named \<open>C\<close> with ancestor chain \<open>[B, A]\<close> (immediate parent
  first) the derived path is \<open>A/B/C\<close>; in general the path of a retained video in a folder is
  the names of the ancestors in reverse (root first), then the folder's own name, joined
  with \<open>/\<close>.
\<close>

theorem folderPath_root_first:
  "folderPath (video_info ex_video) = Some ''A/B/C'' \<and>
   (\<forall>(video :: VimeoVideoRaw) pf. raw_parent_folder video = Some pf \<longrightarrow>
      folderPath (video_info video) =
        Some (join ''/''
          (map anc_name (rev (case pf_ancestor_path pf of Some a \<Rightarrow> a | None \<Rightarrow> []))
             @ [pf_name pf])))"
proof (intro conjI allI impI)
  show "folderPath (video_info ex_video) = Some ''A/B/C''"
    by (simp add: video_info_def ex_video_def ex_folder_def folder_path_of_def)
next
  fix video :: VimeoVideoRaw and pf
  assume "raw_parent_folder video = Some pf"
  then show "folderPath (video_info video) =
      Some (join ''/''
        (map anc_name (rev (case pf_ancestor_path pf of Some a \<Rightarrow> a | None \<Rightarrow> []))
           @ [pf_name pf]))"
    by (simp add: video_info_def folder_path_of_join)
qed

theorem folderPath_root_first_witness:
  "raw_parent_folder ex_video = Some ex_folder \<and>
   folderPath (video_info ex_video) = Some (join ''/'' [''A'', ''B'', ''C''])"
  using folderPath_root_first
  by (simp add: ex_video_def ex_folder_def)

subsection \<open>Retries\<close>

lemma retry_loop_success:
  "outcome (srv n) = Inr r \<Longrightarrow> retry_loop srv n d st = (Inr r, attempt (latency (srv n)) st)"
  by (subst retry_loop.simps) simp

lemma retry_loop_retry:
  "outcome (srv n) = Inl e \<Longrightarrow> is_429 e \<Longrightarrow> n < MAX_RETRIES \<Longrightarrow>
   retry_loop srv n d st =
     retry_loop srv (Suc n) (d * 2) (delay (wait_time e d) (attempt (latency (srv n)) st))"
  by (subst retry_loop.simps) simp

lemma retry_loop_ceiling:
  "outcome (srv n) = Inl e \<Longrightarrow> is_429 e \<Longrightarrow> MAX_RETRIES \<le> n \<Longrightarrow>
   retry_loop srv n d st = (Inl rate_limit_error, attempt (latency (srv n)) st)"
  by (subst retry_loop.simps) simp

lemma retry_loop_other:
  "outcome (srv n) = Inl e \<Longrightarrow> \<not> is_429 e \<Longrightarrow>
   retry_loop srv n d st = (Inl e, attempt (latency (srv n)) st)"
  by (subst retry_loop.simps) simp

lemma quota_no_header_step:
  assumes "quota_no_header (srv n)" "n < MAX_RETRIES"
  shows "retry_loop srv n d st =
     retry_loop srv (Suc n) (d * 2) (delay (Some d) (attempt (latency (srv n)) st))"
proof -
  from assms(1) obtain e r where e: "outcome (srv n) = Inl e" "err_response e = Some r"
      "err_status r = 429" "err_retry_after r = None"
    by (auto simp: quota_no_header_def split: sum.splits option.splits)
  then have "is_429 e" "wait_time e d = Some d"
    by (simp_all add: is_429_def wait_time_def)
  with e(1) assms(2) show ?thesis
    using retry_loop_retry [of srv n e d st] by simp
qed

lemma log_simps [simp]:
  "delays (attempt l st) = delays st"
  "sent (attempt l st) = Suc (sent st)"
  "delays (delay ms st) = delays st @ [ms]"
  "sent (delay ms st) = sent st"
  by (simp_all add: attempt_def delay_def)

text \<open>
  C7. Three quota rejections without a \<open>retry-after\<close> header and then a success: the request
  is sent four times (three retries), the waits made before the retries are 2000, 4000 and
  8000 ms, each the double of the one before, starting from \<open>INITIAL_RETRY_DELAY_MS\<close>
  (after the wait that keeps the spacing to the previous request, if one is due), and the
  caller gets the successful response.
\<close>

theorem three_rejections_then_success:
  assumes "quota_no_header (srv 0)" and "quota_no_header (srv 1)" and "quota_no_header (srv 2)"
    and "outcome (srv 3) = Inr r"
  shows "fst (rateLimitedRequest srv st) = Inr r \<and>
         sent (snd (rateLimitedRequest srv st)) = sent st + 4 \<and>
         delays (snd (rateLimitedRequest srv st)) =
           delays st @ spacing_wait st @
             [Some INITIAL_RETRY_DELAY_MS, Some (2 * INITIAL_RETRY_DELAY_MS),
              Some (4 * INITIAL_RETRY_DELAY_MS)] \<and>
         INITIAL_RETRY_DELAY_MS \<le> 2 * INITIAL_RETRY_DELAY_MS \<and>
         2 * INITIAL_RETRY_DELAY_MS \<le> 4 * INITIAL_RETRY_DELAY_MS"
proof -
  have m: "0 < MAX_RETRIES" "1 < MAX_RETRIES" "2 < MAX_RETRIES"
    by (simp_all add: MAX_RETRIES_def)
  have s0: "retry_loop srv 0 d s =
      retry_loop srv 1 (d * 2) (delay (Some d) (attempt (latency (srv 0)) s))" for d s
    using quota_no_header_step [of srv 0 d s] assms(1) m(1) by simp
  have s1: "retry_loop srv 1 d s =
      retry_loop srv 2 (d * 2) (delay (Some d) (attempt (latency (srv 1)) s))" for d s
    using quota_no_header_step [of srv 1 d s] assms(2) m(2) by (simp add: numeral_2_eq_2)
  have s2: "retry_loop srv 2 d s =
      retry_loop srv 3 (d * 2) (delay (Some d) (attempt (latency (srv 2)) s))" for d s
    using quota_no_header_step [of srv 2 d s] assms(3) m(3)
    by (simp add: numeral_2_eq_2 numeral_3_eq_3)
  have s3: "retry_loop srv 3 d s = (Inr r, attempt (latency (srv 3)) s)" for d s
    using retry_loop_success [of srv 3 r d s] assms(4) by simp
  have "retry_loop srv 0 2000 s =
        (Inr r, attempt (latency (srv 3)) (delay (Some 8000) (attempt (latency (srv 2))
          (delay (Some 4000) (attempt (latency (srv 1))
            (delay (Some 2000) (attempt (latency (srv 0)) s)))))))" for s
    unfolding s0 s1 s2 s3 by simp
  then show ?thesis
    by (simp add: rateLimitedRequest_def INITIAL_RETRY_DELAY_MS_def spacing_wait_def Let_def)
qed

theorem three_rejections_then_success_witness:
  "quota_no_header (ex_retry_server 0) \<and> quota_no_header (ex_retry_server 1) \<and>
   quota_no_header (ex_retry_server 2) \<and> outcome (ex_retry_server 3) = Inr ex_page \<and>
   fst (rateLimitedRequest ex_retry_server ex_browser) = Inr ex_page \<and>
   sent (snd (rateLimitedRequest ex_retry_server ex_browser)) = 4 \<and>
   delays (snd (rateLimitedRequest ex_retry_server ex_browser)) =
     [Some 2000, Some 4000, Some 8000]"
proof -
  have h: "quota_no_header (ex_retry_server 0)" "quota_no_header (ex_retry_server 1)"
    "quota_no_header (ex_retry_server 2)" "outcome (ex_retry_server 3) = Inr ex_page"
    by (simp_all add: quota_no_header_def ex_retry_server_def ex_quota_error_def)
  from three_rejections_then_success [OF h, of ex_browser] h show ?thesis
    by (simp add: ex_browser_def spacing_wait_def REQUEST_DELAY_MS_def
        INITIAL_RETRY_DELAY_MS_def)
qed

subsection \<open>The retry ceiling\<close>

lemma retry_loop_keeps:
  "videos (snd (retry_loop srv n d st)) = videos st \<and>
   folders (snd (retry_loop srv n d st)) = folders st"
proof (induction srv n d st rule: retry_loop.induct)
  case (1 srv retries retryDelay st)
  show ?case
  proof (cases "outcome (srv retries)")
    case (Inr r)
    then show ?thesis by (simp add: retry_loop_success attempt_def)
  next
    case (Inl e)
    show ?thesis
    proof (cases "is_429 e")
      case False
      with Inl show ?thesis by (simp add: retry_loop_other attempt_def)
    next
      case True
      show ?thesis
      proof (cases "retries < MAX_RETRIES")
        case False
        with Inl True show ?thesis by (simp add: retry_loop_ceiling attempt_def)
      next
        case lt: True
        then have "\<not> MAX_RETRIES < Suc retries" by simp
        from "1.IH" [OF Inl True this] Inl True lt show ?thesis
          by (simp add: retry_loop_retry attempt_def delay_def)
      qed
    qed
  qed
qed

lemma retry_loop_all_quota:
  "\<forall>a\<le>MAX_RETRIES. is_quota (srv a) \<Longrightarrow> n \<le> MAX_RETRIES \<Longrightarrow>
   fst (retry_loop srv n d st) = Inl rate_limit_error"
proof (induction "MAX_RETRIES - n" arbitrary: n d st)
  case 0
  then have n: "n = MAX_RETRIES" by simp
  from 0 have "is_quota (srv n)" by simp
  then obtain e where "outcome (srv n) = Inl e" "is_429 e"
    by (cases "outcome (srv n)") (auto simp: is_quota_def)
  then show ?case using n by (simp add: retry_loop_ceiling)
next
  case (Suc m)
  then have lt: "n < MAX_RETRIES" by simp
  from Suc.prems have "is_quota (srv n)" by simp
  then obtain e where e: "outcome (srv n) = Inl e" "is_429 e"
    by (cases "outcome (srv n)") (auto simp: is_quota_def)
  have "m = MAX_RETRIES - Suc n" using Suc.hyps(2) by simp
  from Suc.hyps(1) [OF this Suc.prems(1)] lt e show ?case
    by (simp add: retry_loop_retry)
qed

lemma rateLimitedRequest_keeps:
  assumes "rateLimitedRequest srv st = (res, st')"
  shows "videos st' = videos st \<and> folders st' = folders st"
proof -
  have "st' = snd (rateLimitedRequest srv st)" using assms by simp
  then show ?thesis
    by (simp add: rateLimitedRequest_def Let_def retry_loop_keeps delay_def)
qed

lemma rateLimitedRequest_all_quota:
  assumes "\<forall>a\<le>MAX_RETRIES. is_quota (srv a)"
  shows "\<exists>st'. rateLimitedRequest srv st = (Inl rate_limit_error, st') \<and>
           videos st' = videos st \<and> folders st' = folders st"
proof -
  obtain res st' where r: "rateLimitedRequest srv st = (res, st')"
    by (cases "rateLimitedRequest srv st")
  have "fst (rateLimitedRequest srv st) = Inl rate_limit_error"
    using retry_loop_all_quota [OF assms, of 0] by (simp add: rateLimitedRequest_def Let_def)
  with r rateLimitedRequest_keeps [OF r] show ?thesis by simp
qed

lemma progress_keeps [simp]:
  "videos (page_progress c n st) = videos st"
  "folders (page_progress c n st) = folders st"
  "videos (first_page_progress c d st) = videos st"
  "folders (first_page_progress c d st) = folders st"
  by (simp_all add: page_progress_def first_page_progress_def)

text \<open>
  The loop started at page request \<open>j0\<close>: when the next \<open>k\<close> page requests succeed and name a
  next page and the one after them is rejected at every attempt, the loop returns, with the
  rate-limit error, and \<open>videos\<close> and \<open>folders\<close> are as they were.
\<close>

lemma page_loop_quota:
  assumes "page_always_quota (server (j0 + k))"
    and "\<forall>j<k. page_succeeds_with_next (server (j0 + j))"
  shows "\<exists>st'. page_loop server j0 (Some u) cp tp acc st = Some (Inl rate_limit_error, st') \<and>
           videos st' = videos st \<and> folders st' = folders st"
  using assms
proof (induction k arbitrary: j0 u cp tp acc st)
  case 0
  then have "\<forall>a\<le>MAX_RETRIES. is_quota (server j0 u a)"
    by (simp add: page_always_quota_def)
  from rateLimitedRequest_all_quota [OF this, of st]
  show ?case by (subst page_loop.simps) auto
next
  case (Suc k)
  from Suc.prems(2) have "page_succeeds_with_next (server j0)"
    by (metis add.right_neutral zero_less_Suc)
  then have "case fst (rateLimitedRequest (server j0 u) st) of
      Inr d \<Rightarrow> next_url d \<noteq> None | Inl e \<Rightarrow> False"
    unfolding page_succeeds_with_next_def by blast
  then obtain d where d: "fst (rateLimitedRequest (server j0 u) st) = Inr d" "next_url d \<noteq> None"
    by (cases "fst (rateLimitedRequest (server j0 u) st)") auto
  then obtain st1 where st1: "rateLimitedRequest (server j0 u) st = (Inr d, st1)"
    by (cases "rateLimitedRequest (server j0 u) st") auto
  from d(2) obtain u' where u': "next_url d = Some u'" by auto
  have q: "page_always_quota (server (Suc j0 + k))" using Suc.prems(1) by simp
  have g: "\<forall>j<k. page_succeeds_with_next (server (Suc j0 + j))"
    using Suc.prems(2) by (metis add_Suc_shift Suc_less_eq)
  let ?tp = "if cp = 1 then calculateTotalPages (pg_total d) 100 else tp"
  let ?acc = "process_page acc (pg_data d)"
  let ?st = "page_progress cp (length (fst ?acc)) (first_page_progress cp d st1)"
  from Suc.IH [OF q g, of u' "cp + 1" ?tp ?acc ?st]
  obtain st' where st': "page_loop server (Suc j0) (Some u') (cp + 1) ?tp ?acc ?st =
      Some (Inl rate_limit_error, st')" "videos st' = videos ?st" "folders st' = folders ?st"
    by blast
  have "page_loop server j0 (Some u) cp tp acc st =
      page_loop server (Suc j0) (Some u') (cp + 1) ?tp ?acc ?st"
    by (subst page_loop.simps) (simp add: st1 u')
  with st' rateLimitedRequest_keeps [OF st1] show ?case by simp
qed

text \<open>
  C6. An enumeration (started with a token) whose first \<open>k\<close> page requests succeed and whose
  next page request is rejected with status 429 at every attempt returns: the published
  video list and folder map are empty, the progress status is \<open>error\<close> and the message is the
  rate-limit one. Nothing of the \<open>k\<close> pages already read is published.
\<close>

theorem quota_exhaustion_all_or_nothing:
  assumes "trim token \<noteq> []"
    and "page_always_quota (server k)"
    and "\<forall>j<k. page_succeeds_with_next (server j)"
  shows "\<exists>st'. fetchAllData token teamOwnerId server st = Some st' \<and>
           videos st' = [] \<and> folders st' = [] \<and>
           fp_status (fetch_progress st') = Status_error \<and>
           fp_errorMessage (fetch_progress st') = Some quota_failure_message"
proof -
  let ?st1 = "st\<lparr>videos := [], folders := [], fetch_progress := fetching_progress\<rparr>"
  from page_loop_quota [of server 0 k "getBasePath teamOwnerId @ ''/videos?per_page=100''"
      1 1 "([], [])" ?st1] assms(2,3)
  obtain st2 where
    "page_loop server 0 (Some (getBasePath teamOwnerId @ ''/videos?per_page=100'')) 1 1
       ([], []) ?st1 = Some (Inl rate_limit_error, st2)"
    "videos st2 = []" "folders st2 = []"
    by auto
  with assms(1) show ?thesis
    by (simp add: fetchAllData_def fetch_error_message_def rate_limit_error_def new_Error_def
        or_else_def quota_failure_message_def)
qed

lemma ex_server_first_page:
  "rateLimitedRequest (ex_server 0 url) st =
     (Inr ex_page,
      attempt 40 (if clock st - lastRequestTime st < REQUEST_DELAY_MS
        then delay (Some (REQUEST_DELAY_MS - (clock st - lastRequestTime st))) st else st))"
  by (simp add: rateLimitedRequest_def Let_def ex_server_def retry_loop_success)

theorem quota_exhaustion_all_or_nothing_witness:
  "trim ''token'' \<noteq> [] \<and> page_always_quota (ex_server 1) \<and>
   page_succeeds_with_next (ex_server 0) \<and>
   (\<exists>st'. fetchAllData ''token'' [] ex_server ex_browser = Some st' \<and>
      videos st' = [] \<and> folders st' = [] \<and> fp_status (fetch_progress st') = Status_error \<and>
      fp_errorMessage (fetch_progress st') = Some quota_failure_message)"
proof -
  have t: "trim ''token'' \<noteq> []"
    by (simp add: trim_def is_space_def)
  have q: "page_always_quota (ex_server 1)"
    by (simp add: page_always_quota_def is_quota_def ex_server_def ex_quota_error_def is_429_def)
  have g: "page_succeeds_with_next (ex_server 0)"
    by (simp add: page_succeeds_with_next_def ex_server_first_page next_url_def ex_page_def)
  then have "\<forall>j<1. page_succeeds_with_next (ex_server j)" by simp
  from quota_exhaustion_all_or_nothing [OF t q this, of "[]" ex_browser] t q g
  show ?thesis by simp
qed

section \<open>Properties of one import\<close>

subsection \<open>Selection of the rendition\<close>

lemma foldl_larger_dl_first_max:
  "\<exists>pre post. d # ds = pre @ foldl larger_dl d ds # post \<and>
     (\<forall>x\<in>set pre. dl_size x < dl_size (foldl larger_dl d ds)) \<and>
     (\<forall>x\<in>set post. dl_size x \<le> dl_size (foldl larger_dl d ds))"
proof (induction ds rule: rev_induct)
  case Nil
  have "[d] = [] @ d # []" by simp
  then show ?case by force
next
  case (snoc x ds)
  let ?m = "foldl larger_dl d ds"
  from snoc obtain pre post where p: "d # ds = pre @ ?m # post"
    "\<forall>y\<in>set pre. dl_size y < dl_size ?m" "\<forall>y\<in>set post. dl_size y \<le> dl_size ?m"
    by blast
  show ?case
  proof (cases "dl_size x > dl_size ?m")
    case True
    then have m: "foldl larger_dl d (ds @ [x]) = x" by (simp add: larger_dl_def)
    have "\<forall>y\<in>set (d # ds). dl_size y < dl_size x"
      unfolding p(1) using p(2,3) True by fastforce
    then have "d # ds @ [x] = (d # ds) @ x # [] \<and>
        (\<forall>y\<in>set (d # ds). dl_size y < dl_size x) \<and> (\<forall>y\<in>set []. dl_size y \<le> dl_size x)"
      by simp
    then show ?thesis unfolding m by blast
  next
    case False
    then have m: "foldl larger_dl d (ds @ [x]) = ?m" by (simp add: larger_dl_def)
    have "d # ds @ [x] = pre @ ?m # (post @ [x])" using p(1) by simp
    moreover have "\<forall>y\<in>set (post @ [x]). dl_size y \<le> dl_size ?m" using p(3) False by auto
    ultimately show ?thesis unfolding m using p(2) by blast
  qed
qed

lemma select_download_first_max:
  assumes "select_download vd = Inr d"
  shows "\<exists>dls pre post. vd_download vd = Some dls \<and> non_source dls = pre @ d # post \<and>
           (\<forall>x\<in>set pre. dl_size x < dl_size d) \<and> (\<forall>x\<in>set post. dl_size x \<le> dl_size d)"
proof -
  from assms obtain dls where dls: "vd_download vd = Some dls"
    by (auto simp: select_download_def split: option.splits)
  with assms obtain y ys where ns: "non_source dls = y # ys" and d: "d = foldl larger_dl y ys"
    by (auto simp: select_download_def non_source_def split: list.splits)
  from foldl_larger_dl_first_max [of y ys] obtain pre post where
    "y # ys = pre @ d # post" "\<forall>x\<in>set pre. dl_size x < dl_size d"
    "\<forall>x\<in>set post. dl_size x \<le> dl_size d"
    unfolding d by blast
  with dls ns show ?thesis by auto
qed

text \<open>
  C8. For the renditions \<open>[{size 10, source}, {size 8}, {size 9}]\<close> the orchestrator selects
  the one of size 9. In general the selected rendition is taken from the list without the
  \<open>source\<close> renditions, every rendition before it there is strictly smaller and none after it
  is larger: the largest, and the first of the largest.
\<close>

theorem select_download_largest_first:
  "select_download ex_vimeo_data = Inr (ex_rendition 9 ''720p'') \<and>
   (\<forall>vd d. select_download vd = Inr d \<longrightarrow>
      (\<exists>dls pre post. vd_download vd = Some dls \<and> non_source dls = pre @ d # post \<and>
         (\<forall>x\<in>set pre. dl_size x < dl_size d) \<and> (\<forall>x\<in>set post. dl_size x \<le> dl_size d)))"
proof (intro conjI allI impI)
  show "select_download ex_vimeo_data = Inr (ex_rendition 9 ''720p'')"
    by (simp add: select_download_def ex_vimeo_data_def ex_renditions_def ex_rendition_def
        larger_dl_def)
qed (rule select_download_first_max)

theorem select_download_largest_first_witness:
  "select_download ex_vimeo_data = Inr (ex_rendition 9 ''720p'') \<and>
   (\<exists>pre post. non_source ex_renditions = pre @ ex_rendition 9 ''720p'' # post \<and>
      (\<forall>x\<in>set pre. dl_size x < 9) \<and> (\<forall>x\<in>set post. dl_size x \<le> 9))"
proof -
  have s: "select_download ex_vimeo_data = Inr (ex_rendition 9 ''720p'')"
    using select_download_largest_first by simp
  from select_download_largest_first s
  have "\<exists>dls pre post. vd_download ex_vimeo_data = Some dls \<and>
      non_source dls = pre @ ex_rendition 9 ''720p'' # post \<and>
      (\<forall>x\<in>set pre. dl_size x < dl_size (ex_rendition 9 ''720p'')) \<and>
      (\<forall>x\<in>set post. dl_size x \<le> dl_size (ex_rendition 9 ''720p''))"
    by blast
  then show ?thesis using s by (simp add: ex_vimeo_data_def ex_rendition_def)
qed

subsection \<open>How a run ends\<close>

lemma foldl_apply_snoc:
  "foldl (\<lambda>it u. u it) item (us @ [u]) = u (foldl (\<lambda>it u. u it) item us)"
  by simp

lemma catch_error_ends:
  "ends_in_error item (catch_error us qs e) e q \<longleftrightarrow> qs \<noteq> [] \<and> last qs = q"
proof -
  have "(\<exists>qs'. qs = qs' @ [q]) \<longleftrightarrow> qs \<noteq> [] \<and> last qs = q"
    by (metis append_butlast_last_id last_snoc snoc_eq_iff_butlast)
  then show ?thesis
    by (simp add: ends_in_error_def catch_error_def final_item_def)
qed

lemma already_imported_text:
  "already_imported ex_existing =
     ''Already imported (ID: abc, Title: '' @ [CHR 0x22] @ ''Old talk'' @ [CHR 0x22] @ '')''"
  by (simp add: already_imported_def ex_existing_def)

lemma extractAxiosError_new_Error:
  "msg \<noteq> [] \<Longrightarrow> extractAxiosError (new_Error msg) = msg"
  by (simp add: extractAxiosError_def new_Error_def or_else_def)

subsection \<open>Rejected requests\<close>

lemma run_no_duplicate:
  "checkExistingVimeoImport env = None \<Longrightarrow>
   runImport env item =
     fetch_steps env item [\<lambda>prev. prev\<lparr>statusText := ''Checking for existing import...''\<rparr>]
       [FindExisting (vimeoId item)]"
  by (simp add: runImport_def)

lemma rejected_metadata:
  assumes "checkExistingVimeoImport env = None" and "vimeoResp env = Inl e"
  shows "ends_in_error item (runImport env item) e (GetVimeoVideo (vimeoId item))"
  using assms by (simp add: run_no_duplicate fetch_steps_def catch_error_ends)

lemma rejected_download:
  assumes "checkExistingVimeoImport env = None" and "vimeoResp env = Inr vd"
    and "select_download vd = Inr sel" and "videoResp env = Inl e"
  shows "ends_in_error item (runImport env item) e (DownloadVideo (dl_link sel))"
  using assms by (simp add: run_no_duplicate fetch_steps_def download_steps_def catch_error_ends)

lemma rejected_create:
  assumes "checkExistingVimeoImport env = None" and "vimeoResp env = Inr vd"
    and "select_download vd = Inr sel" and "videoResp env = Inr b" and "createResp env = Inl e"
  shows "ends_in_error item (runImport env item) e (CreateVideo (vd_name vd) (vimeoId item))"
  using assms
  by (simp add: run_no_duplicate fetch_steps_def download_steps_def Let_def catch_error_ends)

lemma rejected_upload:
  assumes "checkExistingVimeoImport env = None" and "vimeoResp env = Inr vd"
    and "select_download vd = Inr sel" and "videoResp env = Inr b" and "createResp env = Inr cr"
    and "uploadResp env = Inl e"
  shows "ends_in_error item (runImport env item) e (UploadVideo (cr_signedUrl cr))"
  using assms
  by (simp add: run_no_duplicate fetch_steps_def download_steps_def upload_steps_def Let_def
      catch_error_ends)

lemma uploaded_goes_polling:
  assumes "checkExistingVimeoImport env = None" and "vimeoResp env = Inr vd"
    and "select_download vd = Inr sel" and "videoResp env = Inr b" and "createResp env = Inr cr"
    and "uploadResp env = Inr u"
  shows "poll (runImport env item) = Some (cr_videoId cr) \<and>
         stage (final_item item (runImport env item)) = Polling"
  using assms
  by (simp add: run_no_duplicate fetch_steps_def download_steps_def upload_steps_def Let_def
      final_item_def split: prod.splits)

lemma thumbnail_step_ignores_precheck:
  "thumbnail_step (env\<lparr>existingResp := x\<rparr>) vd v = thumbnail_step env vd v"
  by (simp add: thumbnail_step_def Let_def cong: option.case_cong list.case_cong sum.case_cong if_cong prod.case_cong)

lemma upload_steps_ignores_precheck:
  "upload_steps (env\<lparr>existingResp := x\<rparr>) vd cr us qs = upload_steps env vd cr us qs"
  by (simp add: upload_steps_def thumbnail_step_ignores_precheck Let_def cong: option.case_cong list.case_cong sum.case_cong if_cong prod.case_cong)

lemma download_steps_ignores_precheck:
  "download_steps (env\<lparr>existingResp := x\<rparr>) item vd sel us qs =
   download_steps env item vd sel us qs"
  by (simp add: download_steps_def upload_steps_ignores_precheck Let_def cong: option.case_cong list.case_cong sum.case_cong if_cong prod.case_cong)

lemma fetch_steps_ignores_precheck:
  "fetch_steps (env\<lparr>existingResp := x\<rparr>) item us qs = fetch_steps env item us qs"
  by (simp add: fetch_steps_def download_steps_ignores_precheck Let_def cong: option.case_cong list.case_cong sum.case_cong if_cong prod.case_cong)

lemma rejected_precheck_ignored:
  assumes "existingResp env = Inl e"
  shows "runImport env item = runImport (env\<lparr>existingResp := Inr []\<rparr>) item"
  using assms
  by (simp add: runImport_def checkExistingVimeoImport_def fetch_steps_ignores_precheck Let_def)

lemma rejected_poll_ignored: "poll_answer i (Inl e) s = s"
  by (simp add: poll_answer_def)


lemma ex_item_id: "item_id ex_item = ''1700000000000-123''"
  by (simp add: ex_item_def newImport_def trim_def is_space_def digit_char_def dec_nat.simps)

lemma ex_select: "select_download ex_vimeo_data = Inr (ex_rendition 9 ''720p'')"
  by (simp add: select_download_def ex_vimeo_data_def ex_renditions_def ex_rendition_def
      larger_dl_def)

lemma ex_no_duplicate: "checkExistingVimeoImport ex_env = None"
  by (simp add: checkExistingVimeoImport_def ex_env_def)


lemma ex_run:
  "runImport ex_env item =
     \<lparr>updates =
        [\<lambda>prev. prev\<lparr>statusText := ''Checking for existing import...''\<rparr>,
         \<lambda>prev. prev\<lparr>stage := Fetching_vimeo, statusText := ''Fetching Vimeo data...'',
                       progress := 5\<rparr>,
         \<lambda>prev. prev\<lparr>vimeoData := Some ex_vimeo_data, progress := 10\<rparr>,
         \<lambda>prev. prev\<lparr>stage := Downloading, statusText := ''Downloading (9 B)...'',
                       progress := 15\<rparr>,
         \<lambda>prev. prev\<lparr>stage := Creating_video, statusText := ''Creating video in Ignite...'',
                       progress := 52\<rparr>,
         \<lambda>prev. prev\<lparr>igniteVideoId := Some ''v1'', progress := 55\<rparr>,
         \<lambda>prev. prev\<lparr>stage := Uploading, statusText := ''Uploading to Ignite...''\<rparr>,
         \<lambda>prev. prev\<lparr>stage := Polling, statusText := ''Processing...'', progress := 98,
                       thumbnailUrl := None\<rparr>],
      requests =
        [FindExisting (vimeoId item), GetVimeoVideo (vimeoId item),
         DownloadVideo ''https://player.vimeo.com/play/720p'',
         CreateVideo ''Talk'' (vimeoId item), UploadVideo ''https://upload.example/v1''],
      poll = Some ''v1''\<rparr>"
proof -
  have e: "vimeoResp ex_env = Inr ex_vimeo_data" "videoResp ex_env = Inr [1, 2, 3]"
    "createResp ex_env = Inr \<lparr>cr_videoId = ''v1'', cr_signedUrl = ''https://upload.example/v1''\<rparr>"
    "uploadResp ex_env = Inr ()" "downloadEvents ex_env = []" "uploadEvents ex_env = []"
    "formatBytes ex_env 9 = ''9 B''"
    by (simp_all add: ex_env_def dec_int_def digit_char_def dec_nat.simps)
  have t: "thumbnail_step ex_env ex_vimeo_data v = ([], [], None)" for v
    by (simp add: thumbnail_step_def ex_vimeo_data_def)
  have n: "vd_name ex_vimeo_data = ''Talk''"
    by (simp add: ex_vimeo_data_def)
  show ?thesis
    by (simp add: run_no_duplicate ex_no_duplicate fetch_steps_def download_steps_def
        upload_steps_def e t n ex_select progress_updates_def ex_rendition_def)
qed

lemma ex_mount:
  "mount ex_store =
     \<lparr>importsQ = [], pollTimers = Map.empty, resumedPollingIds = {},
      igniteToken = ''ignite-token'', vimeoToken = ''vimeo-token'', intervals = [],
      nextTimerId = 1, pending = []\<rparr>"
  by (simp add: mount_def loaded_def ex_store_def resumeEffect_def)

lemma ex_started_queue:
  "map stage (importsQ ex_started) = [Polling] \<and>
   map item_id (importsQ ex_started) = [''1700000000000-123''] \<and>
   map errorMessage (importsQ ex_started) = [None] \<and>
   pollTimers ex_started ''1700000000000-123'' = Some 1 \<and>
   intervals ex_started = [(1, ''1700000000000-123'', ''v1'')] \<and>
   pending ex_started = [(''1700000000000-123'', ''v1'')]"
  by (simp add: ex_started_def startImport_def canImport_def ex_mount trim_def is_space_def
      newImport_def digit_char_def dec_nat.simps ex_run apply_run_def updateImport_def pollVideoStatus_def
      Let_def)


subsection \<open>Duplicate detection\<close>

text \<open>The updates of a run extend those made before it; a run that passes the pre-check
  makes the update to \<open>fetching_vimeo\<close> next.\<close>

lemma upload_steps_prefix:
  "\<exists>rest. updates (upload_steps env vd cr us qs) = us @ rest"
  by (simp add: upload_steps_def catch_error_def Let_def split: sum.splits prod.splits)

lemma download_steps_prefix:
  "\<exists>rest. updates (download_steps env item vd sel us qs) = us @ rest"
proof (cases "videoResp env")
  case (Inl e)
  then show ?thesis by (simp add: download_steps_def catch_error_def)
next
  case b: (Inr b)
  show ?thesis
  proof (cases "createResp env")
    case (Inl e)
    with b show ?thesis by (simp add: download_steps_def catch_error_def Let_def)
  next
    case (Inr cr)
    from upload_steps_prefix obtain rest where
      "updates (upload_steps env vd cr
         ((us @ [\<lambda>prev. prev\<lparr>stage := Downloading,
                statusText := ''Downloading ('' @ formatBytes env (dl_size sel) @ '')...'',
                progress := 15\<rparr>]
            @ progress_updates 15 ''Downloading... '' (downloadEvents env)) @
          [\<lambda>prev. prev\<lparr>stage := Creating_video,
                        statusText := ''Creating video in Ignite...'', progress := 52\<rparr>])
         ((qs @ [DownloadVideo (dl_link sel)]) @ [CreateVideo (vd_name vd) (vimeoId item)]))
       = ((us @ [\<lambda>prev. prev\<lparr>stage := Downloading,
                statusText := ''Downloading ('' @ formatBytes env (dl_size sel) @ '')...'',
                progress := 15\<rparr>]
            @ progress_updates 15 ''Downloading... '' (downloadEvents env)) @
          [\<lambda>prev. prev\<lparr>stage := Creating_video,
                        statusText := ''Creating video in Ignite...'', progress := 52\<rparr>]) @ rest"
      by blast
    with b Inr show ?thesis by (simp add: download_steps_def Let_def)
  qed
qed

lemma fetch_steps_prefix:
  "\<exists>rest. updates (fetch_steps env item us qs) =
     us @ [\<lambda>prev. prev\<lparr>stage := Fetching_vimeo, statusText := ''Fetching Vimeo data...'',
                          progress := 5\<rparr>] @ rest"
proof (cases "vimeoResp env")
  case (Inl e)
  then show ?thesis by (simp add: fetch_steps_def catch_error_def)
next
  case v: (Inr vd)
  show ?thesis
  proof (cases "select_download vd")
    case (Inl e)
    with v show ?thesis by (simp add: fetch_steps_def catch_error_def Let_def)
  next
    case (Inr sel)
    from download_steps_prefix obtain rest where
      "updates (download_steps env item vd sel
         ((us @ [\<lambda>prev. prev\<lparr>stage := Fetching_vimeo, statusText := ''Fetching Vimeo data...'',
                          progress := 5\<rparr>]) @
          [\<lambda>prev. prev\<lparr>vimeoData := Some vd, progress := 10\<rparr>])
         (qs @ [GetVimeoVideo (vimeoId item)]))
       = ((us @ [\<lambda>prev. prev\<lparr>stage := Fetching_vimeo, statusText := ''Fetching Vimeo data...'',
                          progress := 5\<rparr>]) @
          [\<lambda>prev. prev\<lparr>vimeoData := Some vd, progress := 10\<rparr>]) @ rest"
      by blast
    with v Inr show ?thesis by (simp add: fetch_steps_def Let_def)
  qed
qed

lemma states_of_head: "\<exists>r. states_of x us = x # r"
  by (cases us) simp_all

text \<open>
  A rejected pre-check is caught inside \<open>checkExistingVimeoImport\<close> (lines 382--385), which
  then answers that nothing exists: the run enters \<open>fetching_vimeo\<close>.
\<close>

lemma rejected_precheck_enters_fetching:
  assumes "existingResp env = Inl e" and "stage item = Checking"
  shows "\<exists>rest. map stage (states_of item (updates (runImport env item))) =
           [Checking, Checking, Fetching_vimeo] @ rest"
proof -
  have c: "checkExistingVimeoImport env = None"
    using assms(1) by (simp add: checkExistingVimeoImport_def)
  from fetch_steps_prefix obtain rest where
    r: "updates (fetch_steps env item [\<lambda>prev. prev\<lparr>statusText := ''Checking for existing import...''\<rparr>]
           [FindExisting (vimeoId item)]) =
        [\<lambda>prev. prev\<lparr>statusText := ''Checking for existing import...''\<rparr>] @
        [\<lambda>prev. prev\<lparr>stage := Fetching_vimeo, statusText := ''Fetching Vimeo data...'',
                          progress := 5\<rparr>] @ rest"
    by blast
  from states_of_head obtain r' where
    "states_of (item\<lparr>statusText := ''Checking for existing import...''\<rparr>
        \<lparr>stage := Fetching_vimeo, statusText := ''Fetching Vimeo data...'', progress := 5\<rparr>) rest =
       item\<lparr>statusText := ''Checking for existing import...''\<rparr>
        \<lparr>stage := Fetching_vimeo, statusText := ''Fetching Vimeo data...'', progress := 5\<rparr> # r'"
    by blast
  then show ?thesis
    using assms(2) by (simp add: run_no_duplicate [OF c] r)
qed

text \<open>
  C5, as stated, fails. The destination holds a record tagged with the source id of the item,
  and the pre-check request is rejected (status 500): the duplicate is not detected. The item
  enters \<open>fetching_vimeo\<close>, a second record is created for the same source id, and the run
  ends in \<open>polling\<close> without an error message.
\<close>

theorem rejected_precheck_misses_duplicate:
  "precheck_answer [ex_existing] (Some ex_rejection) = Inl ex_rejection \<and>
   map stage (states_of ex_item (updates (runImport
     (ex_env\<lparr>existingResp := precheck_answer [ex_existing] (Some ex_rejection)\<rparr>) ex_item))) =
     [Checking, Checking, Fetching_vimeo, Fetching_vimeo, Downloading, Creating_video,
      Creating_video, Uploading, Polling] \<and>
   requests (runImport
     (ex_env\<lparr>existingResp := precheck_answer [ex_existing] (Some ex_rejection)\<rparr>) ex_item) =
     [FindExisting ''123'', GetVimeoVideo ''123'',
      DownloadVideo ''https://player.vimeo.com/play/720p'',
      CreateVideo ''Talk'' ''123'', UploadVideo ''https://upload.example/v1''] \<and>
   errorMessage (final_item ex_item (runImport
     (ex_env\<lparr>existingResp := precheck_answer [ex_existing] (Some ex_rejection)\<rparr>) ex_item)) = None"
proof -
  have p: "precheck_answer [ex_existing] (Some ex_rejection) = Inl ex_rejection"
    by (simp add: precheck_answer_def)
  have "runImport (ex_env\<lparr>existingResp := Inl ex_rejection\<rparr>) ex_item = runImport ex_env ex_item"
    using rejected_precheck_ignored [of "ex_env\<lparr>existingResp := Inl ex_rejection\<rparr>"
        ex_rejection ex_item]
    by (simp add: ex_env_def)
  then show ?thesis
    unfolding p
    by (simp add: ex_run final_item_def ex_item_def newImport_def trim_def is_space_def)
qed

text \<open>
  C5, as amended. For an item in stage \<open>checking\<close>: when the pre-check is answered with a
  record tagged with the item's \<open>sourceId\<close>, the run goes through the stages \<open>checking\<close>,
  \<open>checking\<close> (the status text changes) and \<open>error\<close>; \<open>fetching_vimeo\<close> is never entered,
  the only request sent is the pre-check, no polling starts, and the error message holds the
  id and the title of the first record of the answer. When the pre-check request is rejected,
  the run is the run after an answer without records, and it enters \<open>fetching_vimeo\<close> right
  after \<open>checking\<close>.
\<close>

theorem duplicate_stops_in_checking:
  assumes "stage item = Checking"
  shows "(\<forall>d ds. existingResp env = Inr (d # ds) \<longrightarrow>
            map stage (states_of item (updates (runImport env item))) = [Checking, Checking, Error] \<and>
            Fetching_vimeo \<notin> set (map stage (states_of item (updates (runImport env item)))) \<and>
            errorMessage (final_item item (runImport env item)) =
              Some (''Already imported (ID: '' @ doc_id d @ '', Title: '' @ [CHR 0x22] @
                    doc_title d @ [CHR 0x22] @ '')'') \<and>
            poll (runImport env item) = None \<and>
            requests (runImport env item) = [FindExisting (vimeoId item)]) \<and>
         (\<forall>e. existingResp env = Inl e \<longrightarrow>
            runImport env item = runImport (env\<lparr>existingResp := Inr []\<rparr>) item \<and>
            (\<exists>rest. map stage (states_of item (updates (runImport env item))) =
               [Checking, Checking, Fetching_vimeo] @ rest))"
proof (intro conjI allI impI)
  fix d ds
  assume r: "existingResp env = Inr (d # ds)"
  have c: "checkExistingVimeoImport env = Some d"
    using r by (simp add: checkExistingVimeoImport_def)
  have m: "extractAxiosError (new_Error (already_imported d)) = already_imported d"
    by (rule extractAxiosError_new_Error) (simp add: already_imported_def)
  have t: "already_imported d =
      ''Already imported (ID: '' @ doc_id d @ '', Title: '' @ [CHR 0x22] @
        doc_title d @ [CHR 0x22] @ '')''"
    by (simp add: already_imported_def)
  have "errorMessage (final_item item (runImport env item)) = Some (already_imported d)"
    by (simp add: runImport_def c catch_error_def final_item_def m)
  then show "errorMessage (final_item item (runImport env item)) =
              Some (''Already imported (ID: '' @ doc_id d @ '', Title: '' @ [CHR 0x22] @
                    doc_title d @ [CHR 0x22] @ '')'')"
    unfolding t .
  show "map stage (states_of item (updates (runImport env item))) = [Checking, Checking, Error]"
    using assms by (simp add: runImport_def c catch_error_def)
  then show "Fetching_vimeo \<notin> set (map stage (states_of item (updates (runImport env item))))"
    by simp
  show "poll (runImport env item) = None"
    by (simp add: runImport_def c catch_error_def)
  show "requests (runImport env item) = [FindExisting (vimeoId item)]"
    by (simp add: runImport_def c catch_error_def)
next
  fix e
  assume r: "existingResp env = Inl e"
  show "runImport env item = runImport (env\<lparr>existingResp := Inr []\<rparr>) item"
    using r by (rule rejected_precheck_ignored)
  show "\<exists>rest. map stage (states_of item (updates (runImport env item))) =
               [Checking, Checking, Fetching_vimeo] @ rest"
    using r assms by (rule rejected_precheck_enters_fetching)
qed

theorem duplicate_stops_in_checking_witness:
  "stage ex_item = Checking \<and>
   existingResp (ex_env\<lparr>existingResp := Inr [ex_existing]\<rparr>) = Inr [ex_existing] \<and>
   map stage (states_of ex_item
     (updates (runImport (ex_env\<lparr>existingResp := Inr [ex_existing]\<rparr>) ex_item)))
     = [Checking, Checking, Error] \<and>
   errorMessage (final_item ex_item
     (runImport (ex_env\<lparr>existingResp := Inr [ex_existing]\<rparr>) ex_item))
     = Some (''Already imported (ID: abc, Title: '' @ [CHR 0x22] @ ''Old talk'' @ [CHR 0x22] @ '')'') \<and>
   existingResp (ex_env\<lparr>existingResp := Inl ex_rejection\<rparr>) = Inl ex_rejection \<and>
   take 3 (map stage (states_of ex_item
     (updates (runImport (ex_env\<lparr>existingResp := Inl ex_rejection\<rparr>) ex_item))))
     = [Checking, Checking, Fetching_vimeo]"
proof -
  have c: "stage ex_item = Checking"
    by (simp add: ex_item_def newImport_def)
  have h: "existingResp (ex_env\<lparr>existingResp := Inr [ex_existing]\<rparr>) = Inr (ex_existing # [])"
    "existingResp (ex_env\<lparr>existingResp := Inl ex_rejection\<rparr>) = Inl ex_rejection"
    by simp_all
  note w1 = duplicate_stops_in_checking [OF c, of "ex_env\<lparr>existingResp := Inr [ex_existing]\<rparr>"]
  note w2 = duplicate_stops_in_checking [OF c, of "ex_env\<lparr>existingResp := Inl ex_rejection\<rparr>"]
  from w1 h(1) have a: "map stage (states_of ex_item
     (updates (runImport (ex_env\<lparr>existingResp := Inr [ex_existing]\<rparr>) ex_item)))
     = [Checking, Checking, Error]"
    by blast
  from w1 h(1) have "errorMessage (final_item ex_item
     (runImport (ex_env\<lparr>existingResp := Inr [ex_existing]\<rparr>) ex_item))
     = Some (''Already imported (ID: '' @ doc_id ex_existing @ '', Title: '' @ [CHR 0x22] @
                    doc_title ex_existing @ [CHR 0x22] @ '')'')"
    by blast
  then have b: "errorMessage (final_item ex_item
     (runImport (ex_env\<lparr>existingResp := Inr [ex_existing]\<rparr>) ex_item))
     = Some (''Already imported (ID: abc, Title: '' @ [CHR 0x22] @ ''Old talk'' @ [CHR 0x22] @ '')'')"
    by (simp add: ex_existing_def)
  from w2 h(2) obtain rest where "map stage (states_of ex_item
     (updates (runImport (ex_env\<lparr>existingResp := Inl ex_rejection\<rparr>) ex_item)))
     = [Checking, Checking, Fetching_vimeo] @ rest"
    by blast
  then have d: "take 3 (map stage (states_of ex_item
     (updates (runImport (ex_env\<lparr>existingResp := Inl ex_rejection\<rparr>) ex_item))))
     = [Checking, Checking, Fetching_vimeo]"
    by simp
  from c h a b d show ?thesis by simp
qed

section \<open>Properties of the restart\<close>

lemma processedImports_nth:
  assumes "k < length parsed"
  shows "processedImports parsed ! k =
     (if stage (parsed ! k) \<in> {Complete, Error, Polling} then parsed ! k
      else interrupted (parsed ! k))"
  using assms by (simp add: processedImports_def FINAL_STAGES_def RESUMABLE_STAGES_def)

lemma resumable_in_processed:
  "resumable_in (processedImports parsed) = resumable_in parsed"
  by (auto simp: resumable_in_def processedImports_def interrupted_def FINAL_STAGES_def
      RESUMABLE_STAGES_def)

lemma resumable_in_snoc:
  "resumable_in (xs @ [x]) =
     (if stage x = Polling \<and> truthy (igniteVideoId x) then insert (item_id x) (resumable_in xs)
      else resumable_in xs)"
  by (auto simp: resumable_in_def)

lemma resume_item_step:
  assumes "resumed_upto xs s"
  shows "resumed_upto (xs @ [x]) (resume_item s x)"
proof (cases "stage x = Polling \<and> truthy (igniteVideoId x) \<and> item_id x \<notin> resumable_in xs")
  case True
  then obtain v where v: "igniteVideoId x = Some v" "v \<noteq> []"
    by (auto simp: truthy_def split: option.splits)
  from True assms have n: "pollTimers s (item_id x) = None" "item_id x \<notin> resumedPollingIds s"
    by (auto simp: resumed_upto_def)
  have r: "resume_item s x =
      pollVideoStatus (item_id x) v
        (s\<lparr>resumedPollingIds := insert (item_id x) (resumedPollingIds s)\<rparr>)"
    using True v n by (simp add: resume_item_def)
  show ?thesis
    using assms True n
    unfolding r resumed_upto_def resumable_in_snoc
    by (auto simp: pollVideoStatus_def Let_def live_timers_def pending_for_def)
next
  case False
  have "resume_item s x = s"
  proof (cases "igniteVideoId x")
    case None
    then show ?thesis by (simp add: resume_item_def)
  next
    case (Some v)
    with False assms show ?thesis
      by (auto simp: resume_item_def resumed_upto_def truthy_def)
  qed
  with False assms show ?thesis
    by (auto simp: resumed_upto_def resumable_in_snoc)
qed

lemma resume_fold:
  "resumed_upto [] s \<Longrightarrow> resumed_upto xs (foldl resume_item s xs)"
  by (induction xs rule: rev_induct) (simp_all add: resume_item_step)

lemma resume_item_keeps_queue [simp]:
  "importsQ (resume_item s x) = importsQ s" "igniteToken (resume_item s x) = igniteToken s"
  by (simp_all add: resume_item_def pollVideoStatus_def Let_def split: option.splits)

lemma resume_fold_keeps_queue [simp]:
  "importsQ (foldl resume_item s xs) = importsQ s"
  "igniteToken (foldl resume_item s xs) = igniteToken s"
  by (induction xs arbitrary: s) simp_all

lemma resume_item_idle:
  "(stage x = Polling \<and> truthy (igniteVideoId x) \<longrightarrow> item_id x \<in> resumedPollingIds s) \<Longrightarrow>
   resume_item s x = s"
  by (auto simp: resume_item_def truthy_def split: option.splits)

lemma resume_fold_idle:
  "\<forall>x\<in>set xs. stage x = Polling \<and> truthy (igniteVideoId x) \<longrightarrow> item_id x \<in> resumedPollingIds s \<Longrightarrow>
   foldl resume_item s xs = s"
  by (induction xs) (simp_all add: resume_item_idle)

lemma loaded_nothing_resumed: "resumed_upto [] (loaded st)"
  by (simp add: resumed_upto_def loaded_def resumable_in_def live_timers_def pending_for_def)

lemma mount_with_token:
  assumes "truthy (stored_ignite_token st)"
  shows "resumed_upto (importsQ (loaded st)) (mount st)"
proof -
  from assms have "igniteToken (loaded st) \<noteq> []"
    by (auto simp: loaded_def truthy_def split: option.splits)
  then have "mount st = foldl resume_item (loaded st) (importsQ (loaded st))"
    by (simp add: mount_def resumeEffect_def)
  with resume_fold [OF loaded_nothing_resumed] show ?thesis by simp
qed

lemma mount_without_token:
  assumes "\<not> truthy (stored_ignite_token st)"
  shows "mount st = loaded st"
proof -
  from assms have "igniteToken (loaded st) = []"
    by (auto simp: loaded_def truthy_def split: option.splits)
  then show ?thesis by (simp add: mount_def resumeEffect_def)
qed

lemma mount_queue:
  "importsQ (mount st) =
     (case stored_imports st of Some parsed \<Rightarrow> processedImports parsed | None \<Rightarrow> [])"
  by (simp add: mount_def resumeEffect_def loaded_def)

lemma mount_timers:
  "length (live_timers (mount st) i) = (if resumable st i then 1 else 0) \<and>
   length (pending_for (mount st) i) = (if resumable st i then 1 else 0)"
proof (cases "truthy (stored_ignite_token st)")
  case True
  have "resumable_in (importsQ (loaded st)) =
      resumable_in (case stored_imports st of Some p \<Rightarrow> p | None \<Rightarrow> [])"
    by (simp add: loaded_def resumable_in_processed split: option.splits)
  with mount_with_token [OF True] True show ?thesis
    by (simp add: resumed_upto_def resumable_def)
next
  case False
  then show ?thesis
    by (simp add: mount_without_token resumable_def loaded_def live_timers_def pending_for_def)
qed

lemma mount_settled: "resumeEffect (mount st) = mount st"
proof (cases "truthy (stored_ignite_token st)")
  case True
  from mount_with_token [OF True]
  have "resumedPollingIds (mount st) = resumable_in (importsQ (loaded st))"
    by (simp add: resumed_upto_def)
  moreover have "importsQ (mount st) = importsQ (loaded st)"
    by (simp add: mount_def resumeEffect_def)
  ultimately have "foldl resume_item (mount st) (importsQ (mount st)) = mount st"
    by (intro resume_fold_idle) (auto simp: resumable_in_def)
  then show ?thesis by (simp add: resumeEffect_def)
next
  case False
  then have "igniteToken (loaded st) = []"
    by (auto simp: loaded_def truthy_def split: option.splits)
  with False show ?thesis by (simp add: mount_without_token resumeEffect_def)
qed

text \<open>
  C4, as stated, fails: the queue \<open>[uploading, polling]\<close> stored without a destination token is
  loaded as \<open>[error, polling]\<close>, and no timer is registered and no status request sent for the
  item in \<open>polling\<close>. The same holds, with the tokens stored, of an item in \<open>polling\<close> that
  has no destination id.
\<close>

theorem polling_item_not_resumed_without_token:
  "map stage (importsQ (mount ex_store_no_token)) = [Error, Polling] \<and>
   intervals (mount ex_store_no_token) = [] \<and> pending (mount ex_store_no_token) = [] \<and>
   pollTimers (mount ex_store_no_token) (item_id ex_polling_item) = None \<and>
   map stage (importsQ (mount ex_store_no_dest)) = [Polling] \<and>
   intervals (mount ex_store_no_dest) = [] \<and> pending (mount ex_store_no_dest) = []"
  by (simp add: mount_def resumeEffect_def loaded_def ex_store_no_token_def ex_store_queue_def
      ex_store_no_dest_def ex_store_def processedImports_def FINAL_STAGES_def
      RESUMABLE_STAGES_def interrupted_def ex_uploading_item_def ex_polling_item_def
      resume_item_def)

text \<open>
  C4, as amended. When the stored queue is loaded, an item stored in stage \<open>complete\<close>, \<open>error\<close>
  or \<open>polling\<close> is kept as it is, and an item stored in any other stage gets stage \<open>error\<close>, the
  message \<open>Import was interrupted. Please try again.\<close> and the status text \<open>Interrupted\<close>. For
  every item id, the restart leaves one live timer and one status request sent when a
  destination token is stored and the queue holds an item of that id in \<open>polling\<close> with a
  destination id, and none otherwise; running the resume effect again changes nothing.
\<close>

theorem restart_reclassifies_and_resumes:
  assumes "stored_imports st = Some parsed"
  shows "length (importsQ (mount st)) = length parsed \<and>
         (\<forall>k<length parsed.
            (stage (parsed ! k) \<in> {Complete, Error, Polling} \<longrightarrow>
               importsQ (mount st) ! k = parsed ! k) \<and>
            (stage (parsed ! k) \<notin> {Complete, Error, Polling} \<longrightarrow>
               importsQ (mount st) ! k =
                 (parsed ! k)\<lparr>stage := Error,
                    errorMessage := Some ''Import was interrupted. Please try again.'',
                    statusText := ''Interrupted''\<rparr>)) \<and>
         (\<forall>i. length (live_timers (mount st) i) = (if resumable st i then 1 else 0) \<and>
              length (pending_for (mount st) i) = (if resumable st i then 1 else 0)) \<and>
         resumeEffect (mount st) = mount st"
proof -
  have q: "importsQ (mount st) = processedImports parsed"
    using assms by (simp add: mount_queue)
  have "length (importsQ (mount st)) = length parsed"
    by (simp add: q processedImports_def)
  moreover have "\<forall>k<length parsed.
      (stage (parsed ! k) \<in> {Complete, Error, Polling} \<longrightarrow>
         importsQ (mount st) ! k = parsed ! k) \<and>
      (stage (parsed ! k) \<notin> {Complete, Error, Polling} \<longrightarrow>
         importsQ (mount st) ! k =
           (parsed ! k)\<lparr>stage := Error,
              errorMessage := Some ''Import was interrupted. Please try again.'',
              statusText := ''Interrupted''\<rparr>)"
    unfolding q by (simp add: processedImports_nth interrupted_def)
  ultimately show ?thesis
    using mount_timers [of st] mount_settled [of st] by blast
qed

theorem restart_reclassifies_and_resumes_witness:
  "stored_imports ex_store_queue = Some [ex_uploading_item, ex_polling_item] \<and>
   resumable ex_store_queue (item_id ex_polling_item) \<and>
   \<not> resumable ex_store_queue (item_id ex_uploading_item) \<and>
   importsQ (mount ex_store_queue) ! 0 =
     ex_uploading_item\<lparr>stage := Error,
       errorMessage := Some ''Import was interrupted. Please try again.'',
       statusText := ''Interrupted''\<rparr> \<and>
   importsQ (mount ex_store_queue) ! 1 = ex_polling_item \<and>
   length (live_timers (mount ex_store_queue) (item_id ex_polling_item)) = 1 \<and>
   length (pending_for (mount ex_store_queue) (item_id ex_polling_item)) = 1 \<and>
   length (live_timers (mount ex_store_queue) (item_id ex_uploading_item)) = 0 \<and>
   resumeEffect (mount ex_store_queue) = mount ex_store_queue"
proof -
  have h: "stored_imports ex_store_queue = Some [ex_uploading_item, ex_polling_item]"
    by (simp add: ex_store_queue_def)
  have i: "item_id ex_polling_item = ''1700000000000-123''"
    "item_id ex_uploading_item = ''1700000000001-456''"
    by (simp_all add: ex_polling_item_def ex_uploading_item_def ex_item_id newImport_def
        trim_def is_space_def digit_char_def dec_nat.simps)
  have s: "stage ex_polling_item = Polling" "stage ex_uploading_item = Uploading"
    "igniteVideoId ex_polling_item = Some ''v1''"
    by (simp_all add: ex_polling_item_def ex_uploading_item_def)
  have r: "resumable ex_store_queue (item_id ex_polling_item)"
    "\<not> resumable ex_store_queue (item_id ex_uploading_item)"
    by (simp_all add: resumable_def resumable_in_def h i s truthy_def)
      (simp add: ex_store_queue_def ex_store_def)
  from restart_reclassifies_and_resumes [OF h] have
    a: "\<forall>k<2. (stage ([ex_uploading_item, ex_polling_item] ! k) \<in> {Complete, Error, Polling} \<longrightarrow>
          importsQ (mount ex_store_queue) ! k = [ex_uploading_item, ex_polling_item] ! k) \<and>
        (stage ([ex_uploading_item, ex_polling_item] ! k) \<notin> {Complete, Error, Polling} \<longrightarrow>
          importsQ (mount ex_store_queue) ! k =
            ([ex_uploading_item, ex_polling_item] ! k)\<lparr>stage := Error,
               errorMessage := Some ''Import was interrupted. Please try again.'',
               statusText := ''Interrupted''\<rparr>)"
    and b: "\<forall>i. length (live_timers (mount ex_store_queue) i) =
               (if resumable ex_store_queue i then 1 else 0) \<and>
             length (pending_for (mount ex_store_queue) i) =
               (if resumable ex_store_queue i then 1 else 0)"
    and c: "resumeEffect (mount ex_store_queue) = mount ex_store_queue"
    by simp_all
  from a [rule_format, of 0] a [rule_format, of 1] s
  have "importsQ (mount ex_store_queue) ! 0 =
     ex_uploading_item\<lparr>stage := Error,
       errorMessage := Some ''Import was interrupted. Please try again.'',
       statusText := ''Interrupted''\<rparr>"
    "importsQ (mount ex_store_queue) ! 1 = ex_polling_item"
    by simp_all
  with b r c h show ?thesis by simp
qed

section \<open>Properties of polling\<close>

subsection \<open>A late answer\<close>

lemma ex_started_state:
  "ex_started =
     \<lparr>importsQ =
        [\<lparr>item_id = ''1700000000000-123'', vimeoId = ''123'', stage = Polling, progress = 98,
          statusText = ''Processing...'', vimeoData = Some ex_vimeo_data,
          igniteVideoId = Some ''v1'', thumbnailUrl = None, errorMessage = None,
          options = ex_options\<rparr>],
      pollTimers = [''1700000000000-123'' \<mapsto> 1],
      resumedPollingIds = {},
      igniteToken = ''ignite-token'', vimeoToken = ''vimeo-token'',
      intervals = [(1, ''1700000000000-123'', ''v1'')],
      nextTimerId = 2,
      pending = [(''1700000000000-123'', ''v1'')]\<rparr>"
  by (simp add: ex_started_def startImport_def canImport_def ex_mount trim_def is_space_def
      newImport_def digit_char_def dec_nat.simps ex_run apply_run_def updateImport_def pollVideoStatus_def
      Let_def)

lemma toUpperCase_examples:
  "toUpperCase ''failed'' = ''FAILED''" "toUpperCase ''ready'' = ''READY''"
  by (simp_all add: toUpperCase_def upper_char_def)

text \<open>
  C9. The claim: an item that reaches \<open>complete\<close> has \<open>progress = 100\<close> and no error message.
  The poll callback sends its request and applies the answer later, whatever has happened to
  the item meanwhile, and its \<open>complete\<close> update leaves \<open>errorMessage\<close> as it is. After an
  import has reached \<open>polling\<close> (the first status request is out), the interval fires once
  more before the first answer arrives; the first request is answered \<open>failed\<close>, which moves
  the item to \<open>error\<close> and cancels the timer; the second is answered \<open>ready\<close>, which moves the
  item from \<open>error\<close> to \<open>complete\<close> with \<open>progress = 100\<close> and the error message still set.
\<close>

theorem late_answer_completes_failed_item:
  "map_option (\<lambda>s. (map (\<lambda>x. (stage x, progress x, errorMessage x)) (importsQ s), intervals s))
     (run_events [Tick 1, Answer 0 (Inr ''failed'')] ex_started)
     = Some ([(Error, 98, Some ''Encoding failed: FAILED'')], []) \<and>
   map_option (\<lambda>s. (map (\<lambda>x. (stage x, progress x, errorMessage x)) (importsQ s), intervals s))
     (run_events [Tick 1, Answer 0 (Inr ''failed''), Answer 0 (Inr ''ready'')] ex_started)
     = Some ([(Complete, 100, Some ''Encoding failed: FAILED'')], [])"
  by (simp add: ex_started_state poll_answer_def toUpperCase_examples doneStatuses_def
      errorStatuses_def updateImport_def clear_and_delete_def clearInterval_def
      resumeEffect_def resume_item_def Let_def)

subsection \<open>Registry and intervals\<close>

lemma clearInterval_simps [simp]:
  "importsQ (clearInterval t s) = importsQ s"
  "pollTimers (clearInterval t s) = pollTimers s"
  "resumedPollingIds (clearInterval t s) = resumedPollingIds s"
  "igniteToken (clearInterval t s) = igniteToken s"
  "nextTimerId (clearInterval t s) = nextTimerId s"
  "pending (clearInterval t s) = pending s"
  "intervals (clearInterval t s) = filter (\<lambda>iv. fst iv \<noteq> t) (intervals s)"
  by (simp_all add: clearInterval_def)

lemma timers_ok_key:
  assumes "timers_ok s" and "pollTimers s i = Some t" and "pollTimers s j = Some t"
  shows "i = j"
proof -
  from assms obtain v w where "(t, i, v) \<in> set (intervals s)" "(t, j, w) \<in> set (intervals s)"
    unfolding timers_ok_def by blast
  moreover from assms(1) have "distinct (map fst (intervals s))"
    by (simp add: timers_ok_def)
  ultimately have "(i, v) = (j, w)" by (metis eq_key_imp_eq_value)
  then show ?thesis by simp
qed

lemma unregister_ok:
  assumes "timers_ok s" and "pollTimers s i = Some t"
  shows "timers_ok ((clearInterval t s)\<lparr>pollTimers := (pollTimers s)(i := None)\<rparr>)"
proof -
  have a: "pollTimers s j \<noteq> Some t" if "j \<noteq> i" for j
    using timers_ok_key [OF assms(1) assms(2)] that by metis
  show ?thesis
    unfolding timers_ok_def
  proof (intro conjI ballI allI impI)
    fix iv assume iv: "iv \<in> set (intervals ((clearInterval t s)\<lparr>pollTimers := (pollTimers s)(i := None)\<rparr>))"
    then have m: "iv \<in> set (intervals s)" "fst iv \<noteq> t" by simp_all
    with assms(1) have p: "pollTimers s (fst (snd iv)) = Some (fst iv)" "fst iv < nextTimerId s"
      by (simp_all add: timers_ok_def)
    with m(2) assms(2) have "fst (snd iv) \<noteq> i" by auto
    with p show "pollTimers ((clearInterval t s)\<lparr>pollTimers := (pollTimers s)(i := None)\<rparr>)
        (fst (snd iv)) = Some (fst iv)"
      by simp
    from p show "fst iv < nextTimerId ((clearInterval t s)\<lparr>pollTimers := (pollTimers s)(i := None)\<rparr>)"
      by simp
  next
    from assms(1) show "distinct (map fst
        (intervals ((clearInterval t s)\<lparr>pollTimers := (pollTimers s)(i := None)\<rparr>)))"
      by (simp add: timers_ok_def distinct_map_filter)
  next
    fix j u
    assume "pollTimers ((clearInterval t s)\<lparr>pollTimers := (pollTimers s)(i := None)\<rparr>) j = Some u"
    then have j: "j \<noteq> i" "pollTimers s j = Some u" by (auto split: if_splits)
    with assms(1) obtain v where v: "u \<noteq> 0" "(u, j, v) \<in> set (intervals s)"
      unfolding timers_ok_def by blast
    from j a have "u \<noteq> t" by auto
    with v show "u \<noteq> 0" and
      "\<exists>v. (u, j, v) \<in> set (intervals ((clearInterval t s)\<lparr>pollTimers := (pollTimers s)(i := None)\<rparr>))"
      by auto
  next
    from assms(1) show "0 < nextTimerId ((clearInterval t s)\<lparr>pollTimers := (pollTimers s)(i := None)\<rparr>)"
      by (simp add: timers_ok_def)
  qed
qed

lemma clear_if_set_eq:
  assumes "timers_ok s"
  shows "clear_if_set i s =
     (case pollTimers s i of
        Some t \<Rightarrow> (clearInterval t s)\<lparr>pollTimers := (pollTimers s)(i := None)\<rparr>
      | None \<Rightarrow> s)"
  using assms by (auto simp: clear_if_set_def timers_ok_def split: option.splits)

lemma clear_and_delete_eq:
  assumes "timers_ok s"
  shows "clear_and_delete i s = clear_if_set i s"
proof (cases "pollTimers s i")
  case None
  then have "(pollTimers s)(i := None) = pollTimers s" by auto
  with None show ?thesis by (simp add: clear_and_delete_def clear_if_set_def)
next
  case (Some t)
  with assms have "t \<noteq> 0" by (auto simp: timers_ok_def)
  with Some show ?thesis by (simp add: clear_and_delete_def clear_if_set_def)
qed

lemma clear_if_set_ok:
  "timers_ok s \<Longrightarrow> timers_ok (clear_if_set i s)"
  by (auto simp: clear_if_set_eq unregister_ok split: option.splits)

lemma clear_if_set_simps:
  assumes "timers_ok s"
  shows "importsQ (clear_if_set i s) = importsQ s"
    and "resumedPollingIds (clear_if_set i s) = resumedPollingIds s"
    and "igniteToken (clear_if_set i s) = igniteToken s"
    and "pollTimers (clear_if_set i s) = (pollTimers s)(i := None)"
  using assms by (auto simp: clear_if_set_eq split: option.splits)

lemma pollVideoStatus_simps [simp]:
  "importsQ (pollVideoStatus i v s) = importsQ s"
  "resumedPollingIds (pollVideoStatus i v s) = resumedPollingIds s"
  "igniteToken (pollVideoStatus i v s) = igniteToken s"
  "pollTimers (pollVideoStatus i v s) = (pollTimers s)(i \<mapsto> nextTimerId s)"
  by (simp_all add: pollVideoStatus_def Let_def split: option.splits)

lemma register_ok:
  assumes "timers_ok s" and "pollTimers s i = None"
  shows "timers_ok (s\<lparr>intervals := intervals s @ [(nextTimerId s, i, v)],
            nextTimerId := Suc (nextTimerId s),
            pollTimers := (pollTimers s)(i \<mapsto> nextTimerId s),
            pending := p\<rparr>)"
  unfolding timers_ok_def
proof (intro conjI ballI allI impI)
  let ?s = "s\<lparr>intervals := intervals s @ [(nextTimerId s, i, v)],
            nextTimerId := Suc (nextTimerId s),
            pollTimers := (pollTimers s)(i \<mapsto> nextTimerId s),
            pending := p\<rparr>"
  have old: "pollTimers s (fst (snd iv)) = Some (fst iv)" "fst iv < nextTimerId s"
    "fst (snd iv) \<noteq> i" if "iv \<in> set (intervals s)" for iv
    using assms(1,2) that by (auto simp: timers_ok_def)
  {
    fix iv assume "iv \<in> set (intervals ?s)"
    then have c: "iv \<in> set (intervals s) \<or> iv = (nextTimerId s, i, v)" by auto
    show "pollTimers ?s (fst (snd iv)) = Some (fst iv)"
    proof (cases "iv \<in> set (intervals s)")
      case True
      from old [OF True] show ?thesis by simp
    next
      case False
      with c show ?thesis by simp
    qed
    show "fst iv < nextTimerId ?s"
    proof (cases "iv \<in> set (intervals s)")
      case True
      from old(2) [OF True] show ?thesis by simp
    next
      case False
      with c show ?thesis by simp
    qed
  }
  have "nextTimerId s \<notin> fst ` set (intervals s)" using old(2) by force
  with assms(1) show "distinct (map fst (intervals ?s))"
    by (simp add: timers_ok_def)
  {
    fix j u assume "pollTimers ?s j = Some u"
    then have c: "(j = i \<and> u = nextTimerId s) \<or> (j \<noteq> i \<and> pollTimers s j = Some u)"
      by (auto split: if_splits)
    from c assms(1) show "u \<noteq> 0" by (auto simp: timers_ok_def)
    from c assms(1) show "\<exists>w. (u, j, w) \<in> set (intervals ?s)"
      by (auto simp: timers_ok_def)
  }
  show "0 < nextTimerId ?s" by simp
qed

lemma pollVideoStatus_ok:
  assumes "timers_ok s"
  shows "timers_ok (pollVideoStatus i v s)"
proof (cases "pollTimers s i")
  case None
  then have "pollVideoStatus i v s =
      s\<lparr>intervals := intervals s @ [(nextTimerId s, i, v)], nextTimerId := Suc (nextTimerId s),
        pollTimers := (pollTimers s)(i \<mapsto> nextTimerId s), pending := pending s @ [(i, v)]\<rparr>"
    by (simp add: pollVideoStatus_def Let_def)
  with register_ok [OF assms None] show ?thesis by simp
next
  case (Some t)
  let ?c = "(clearInterval t s)\<lparr>pollTimers := (pollTimers s)(i := None)\<rparr>"
  from assms Some have t: "t \<noteq> 0" by (auto simp: timers_ok_def)
  have c: "timers_ok ?c" "pollTimers ?c i = None"
    using unregister_ok [OF assms Some] by simp_all
  have "pollVideoStatus i v s =
      ?c\<lparr>intervals := intervals ?c @ [(nextTimerId ?c, i, v)], nextTimerId := Suc (nextTimerId ?c),
        pollTimers := (pollTimers ?c)(i \<mapsto> nextTimerId ?c), pending := pending s @ [(i, v)]\<rparr>"
    using Some t by (simp add: pollVideoStatus_def Let_def clearInterval_def)
  with register_ok [OF c] show ?thesis by simp
qed

lemma short_when_equal:
  "distinct ys \<Longrightarrow> \<forall>y\<in>set ys. y = t \<Longrightarrow> length ys \<le> Suc 0"
  by (cases ys; cases "tl ys") auto

text \<open>Under the invariant, the live timers of an item are the registered one, if any.\<close>

lemma live_timers_length:
  assumes "timers_ok s"
  shows "length (live_timers s i) = (if pollTimers s i = None then 0 else 1)"
proof (cases "pollTimers s i")
  case None
  with assms have "\<forall>iv\<in>set (intervals s). fst (snd iv) \<noteq> i"
    by (auto simp: timers_ok_def)
  then have "filter (\<lambda>iv. fst (snd iv) = i) (intervals s) = []"
    by (simp add: filter_empty_conv)
  with None show ?thesis by (simp add: live_timers_def)
next
  case (Some t)
  from assms have d: "distinct (live_timers s i)"
    by (simp add: live_timers_def timers_ok_def distinct_map_filter)
  from assms Some have "\<forall>y\<in>set (live_timers s i). y = t"
    by (auto simp: live_timers_def timers_ok_def)
  with d have "length (live_timers s i) \<le> Suc 0" by (rule short_when_equal)
  moreover from assms Some obtain v where "(t, i, v) \<in> set (intervals s)"
    unfolding timers_ok_def by blast
  then have "t \<in> set (live_timers s i)" by (force simp: live_timers_def)
  then have "live_timers s i \<noteq> []" by auto
  ultimately show ?thesis using Some by (cases "live_timers s i") auto
qed

lemma register_leaves_one:
  assumes "timers_ok s"
  shows "length (live_timers (pollVideoStatus i v s) i) = 1 \<and>
         (\<forall>j. length (live_timers (pollVideoStatus i v s) j) \<le> 1)"
  using live_timers_length [OF pollVideoStatus_ok [OF assms]] by simp

text \<open>
  What a registration does to the intervals: those of the item are cancelled, a new one with
  the next timer id is appended, and \<open>run\<close> sends one status request at once.
\<close>

lemma pollVideoStatus_effect:
  assumes "timers_ok s"
  shows "intervals (pollVideoStatus i v s) =
           filter (\<lambda>iv. fst (snd iv) \<noteq> i) (intervals s) @ [(nextTimerId s, i, v)]"
    and "pending (pollVideoStatus i v s) = pending s @ [(i, v)]"
proof -
  show "pending (pollVideoStatus i v s) = pending s @ [(i, v)]"
    by (simp add: pollVideoStatus_def Let_def split: option.splits)
  show "intervals (pollVideoStatus i v s) =
           filter (\<lambda>iv. fst (snd iv) \<noteq> i) (intervals s) @ [(nextTimerId s, i, v)]"
  proof (cases "pollTimers s i")
    case None
    with assms have "\<forall>iv\<in>set (intervals s). fst (snd iv) \<noteq> i"
      by (auto simp: timers_ok_def)
    then have "filter (\<lambda>iv. fst (snd iv) \<noteq> i) (intervals s) = intervals s"
      by (simp add: filter_id_conv)
    with None show ?thesis by (simp add: pollVideoStatus_def Let_def)
  next
    case (Some t)
    from assms Some have t: "t \<noteq> 0" by (auto simp: timers_ok_def)
    have "fst iv \<noteq> t \<longleftrightarrow> fst (snd iv) \<noteq> i" if m: "iv \<in> set (intervals s)" for iv
    proof -
      from assms m have p: "pollTimers s (fst (snd iv)) = Some (fst iv)"
        by (simp add: timers_ok_def)
      show ?thesis
      proof
        assume "fst iv \<noteq> t"
        with p Some show "fst (snd iv) \<noteq> i" by auto
      next
        assume n: "fst (snd iv) \<noteq> i"
        show "fst iv \<noteq> t"
        proof
          assume "fst iv = t"
          with p have "pollTimers s (fst (snd iv)) = Some t" by simp
          from timers_ok_key [OF assms Some this] n show False by simp
        qed
      qed
    qed
    then have "filter (\<lambda>iv. fst iv \<noteq> t) (intervals s) =
        filter (\<lambda>iv. fst (snd iv) \<noteq> i) (intervals s)"
      by (intro filter_cong refl)
    with Some t show ?thesis by (simp add: pollVideoStatus_def Let_def)
  qed
qed

lemma filter_other_item:
  "j \<noteq> i \<Longrightarrow>
   filter (\<lambda>iv. fst (snd iv) = j) (filter (\<lambda>iv. fst (snd iv) \<noteq> i) xs) =
     filter (\<lambda>iv. fst (snd iv) = j) xs"
  by (induction xs) auto

lemma register_replaces:
  assumes "timers_ok s"
  shows "live_timers (pollVideoStatus i v s) i = [nextTimerId s]"
    and "nextTimerId s \<notin> set (live_timers s i)"
    and "set (live_timers s i) \<inter> set (map fst (intervals (pollVideoStatus i v s))) = {}"
    and "j \<noteq> i \<Longrightarrow> live_timers (pollVideoStatus i v s) j = live_timers s j"
proof -
  note e = pollVideoStatus_effect(1) [OF assms]
  have lt: "fst iv < nextTimerId s" if "iv \<in> set (intervals s)" for iv
    using assms that by (simp add: timers_ok_def)
  have d: "distinct (map fst (intervals s))"
    using assms by (simp add: timers_ok_def)
  show "live_timers (pollVideoStatus i v s) i = [nextTimerId s]"
    by (simp add: live_timers_def e)
  show "nextTimerId s \<notin> set (live_timers s i)"
  proof
    assume "nextTimerId s \<in> set (live_timers s i)"
    then obtain iv where "iv \<in> set (intervals s)" "fst iv = nextTimerId s"
      by (auto simp: live_timers_def)
    with lt [of iv] show False by simp
  qed
  show "set (live_timers s i) \<inter> set (map fst (intervals (pollVideoStatus i v s))) = {}"
  proof (rule ccontr)
    assume "set (live_timers s i) \<inter> set (map fst (intervals (pollVideoStatus i v s))) \<noteq> {}"
    then obtain t where a: "t \<in> set (live_timers s i)"
      and b: "t \<in> set (map fst (intervals (pollVideoStatus i v s)))"
      by blast
    from a obtain iv where iv: "iv \<in> set (intervals s)" "fst iv = t" "fst (snd iv) = i"
      by (auto simp: live_timers_def)
    from lt [OF iv(1)] iv(2) have "t \<noteq> nextTimerId s" by simp
    with b obtain iw where iw: "iw \<in> set (intervals s)" "fst iw = t" "fst (snd iw) \<noteq> i"
      by (auto simp: e)
    from d iv(1) iw(1) iv(2) iw(2) have "iv = iw"
      by (metis eq_key_imp_eq_value prod.collapse)
    with iv(3) iw(3) show False by simp
  qed
  assume "j \<noteq> i"
  then show "live_timers (pollVideoStatus i v s) j = live_timers s j"
    by (simp add: live_timers_def e filter_other_item del: filter_filter)
qed

subsection \<open>The shape of a run\<close>

lemma keeps_id_progress: "list_all keeps_id (progress_updates b l evts)"
  by (auto simp: progress_updates_def list_all_iff keeps_id_def split: option.splits if_splits)

lemma keeps_id_catch [simp]:
  "list_all keeps_id (updates (catch_error us qs e)) \<longleftrightarrow> list_all keeps_id us"
  by (simp add: catch_error_def keeps_id_def)

lemma keeps_id_thumbnail: "list_all keeps_id (fst (thumbnail_step env vd v))"
  by (simp add: thumbnail_step_def keeps_id_def Let_def
      split: option.splits list.splits sum.splits)

lemma keeps_id_upload:
  assumes "list_all keeps_id us"
  shows "list_all keeps_id (updates (upload_steps env vd cr us qs))"
proof -
  have a: "list_all keeps_id (us @
       [\<lambda>prev. prev\<lparr>igniteVideoId := Some (cr_videoId cr), progress := 55\<rparr>,
        \<lambda>prev. prev\<lparr>stage := Uploading, statusText := ''Uploading to Ignite...''\<rparr>]
       @ progress_updates 55 ''Uploading... '' (uploadEvents env))"
    using assms keeps_id_progress by (simp add: keeps_id_def)
  show ?thesis
  proof (cases "uploadResp env")
    case (Inl e)
    with a show ?thesis by (simp add: upload_steps_def Let_def)
  next
    case (Inr u)
    obtain tus tqs thumb where t: "thumbnail_step env vd (cr_videoId cr) = (tus, tqs, thumb)"
      by (cases "thumbnail_step env vd (cr_videoId cr)") auto
    with keeps_id_thumbnail [of env vd "cr_videoId cr"] have "list_all keeps_id tus" by simp
    with a Inr t show ?thesis by (simp add: upload_steps_def Let_def keeps_id_def)
  qed
qed

lemma keeps_id_download:
  assumes "list_all keeps_id us"
  shows "list_all keeps_id (updates (download_steps env item vd sel us qs))"
proof -
  have a: "list_all keeps_id (us @
       [\<lambda>prev. prev\<lparr>stage := Downloading,
           statusText := ''Downloading ('' @ formatBytes env (dl_size sel) @ '')...'',
           progress := 15\<rparr>]
       @ progress_updates 15 ''Downloading... '' (downloadEvents env))"
    using assms keeps_id_progress by (simp add: keeps_id_def)
  then have b: "list_all keeps_id ((us @
       [\<lambda>prev. prev\<lparr>stage := Downloading,
           statusText := ''Downloading ('' @ formatBytes env (dl_size sel) @ '')...'',
           progress := 15\<rparr>]
       @ progress_updates 15 ''Downloading... '' (downloadEvents env)) @
       [\<lambda>prev. prev\<lparr>stage := Creating_video, statusText := ''Creating video in Ignite...'',
           progress := 52\<rparr>])"
    by (simp add: keeps_id_def)
  show ?thesis
    using a b keeps_id_upload [OF b]
    by (simp add: download_steps_def Let_def split: sum.splits)
qed

lemma keeps_id_fetch:
  assumes "list_all keeps_id us"
  shows "list_all keeps_id (updates (fetch_steps env item us qs))"
proof -
  have a: "list_all keeps_id (us @
       [\<lambda>prev. prev\<lparr>stage := Fetching_vimeo, statusText := ''Fetching Vimeo data...'',
           progress := 5\<rparr>])"
    using assms by (simp add: keeps_id_def)
  then have b: "list_all keeps_id ((us @
       [\<lambda>prev. prev\<lparr>stage := Fetching_vimeo, statusText := ''Fetching Vimeo data...'',
           progress := 5\<rparr>]) @ [\<lambda>prev. prev\<lparr>vimeoData := Some vd, progress := 10\<rparr>])" for vd
    by (simp add: keeps_id_def)
  show ?thesis
    using a b keeps_id_download [OF b]
    by (simp add: fetch_steps_def Let_def split: sum.splits)
qed

lemma keeps_id_run: "list_all keeps_id (updates (runImport env item))"
proof -
  have a: "list_all keeps_id [\<lambda>prev. prev\<lparr>statusText := ''Checking for existing import...''\<rparr>]"
    by (simp add: keeps_id_def)
  with keeps_id_fetch [OF a] show ?thesis
    by (simp add: runImport_def Let_def split: option.splits)
qed

lemma settles_catch: "settles (catch_error us qs e)"
  by (simp add: settles_def catch_error_def final_stage_def)

lemma settles_upload: "settles (upload_steps env vd cr us qs)"
proof (cases "uploadResp env")
  case (Inl e)
  then show ?thesis by (simp add: upload_steps_def Let_def settles_catch)
next
  case (Inr u)
  obtain tus tqs thumb where t: "thumbnail_step env vd (cr_videoId cr) = (tus, tqs, thumb)"
    by (cases "thumbnail_step env vd (cr_videoId cr)") auto
  let ?us = "us @
       [\<lambda>prev. prev\<lparr>igniteVideoId := Some (cr_videoId cr), progress := 55\<rparr>,
        \<lambda>prev. prev\<lparr>stage := Uploading, statusText := ''Uploading to Ignite...''\<rparr>]
       @ progress_updates 55 ''Uploading... '' (uploadEvents env) @ tus"
  let ?u = "\<lambda>prev. prev\<lparr>stage := Polling, statusText := ''Processing...'', progress := 98,
       thumbnailUrl := thumb\<rparr>"
  have "updates (upload_steps env vd cr us qs) = ?us @ [?u]"
    "poll (upload_steps env vd cr us qs) = Some (cr_videoId cr)"
    using Inr t by (simp_all add: upload_steps_def Let_def)
  then show ?thesis
    unfolding settles_def final_stage_def by (intro exI [of _ ?us] exI [of _ ?u]) simp
qed

lemma settles_run: "settles (runImport env item)"
  by (simp add: runImport_def fetch_steps_def download_steps_def Let_def settles_catch
      settles_upload split: option.splits sum.splits)

lemma run_final_stage:
  "stage (foldl (\<lambda>it u. u it) x (updates (runImport env item))) = final_stage (runImport env item)"
proof -
  from settles_run [of env item] obtain us u where
    "updates (runImport env item) = us @ [u]" "\<forall>x. stage (u x) = final_stage (runImport env item)"
    unfolding settles_def by blast
  then show ?thesis by simp
qed

lemma run_keeps_id_gen:
  "list_all keeps_id us \<Longrightarrow> item_id (foldl (\<lambda>it u. u it) x us) = item_id x"
  by (induction us arbitrary: x) (simp_all add: keeps_id_def)

lemma fold_updateImport:
  "list_all keeps_id us \<Longrightarrow>
   foldl (\<lambda>st u. updateImport i u st) s us =
     updateImport i (\<lambda>x. foldl (\<lambda>it u. u it) x us) s"
proof (induction us arbitrary: s)
  case Nil
  show ?case by (simp add: updateImport_def map_idI)
next
  case (Cons u us)
  then have k: "keeps_id u" "list_all keeps_id us" by simp_all
  have "updateImport i (\<lambda>x. foldl (\<lambda>it u. u it) x us) (updateImport i u s) =
      updateImport i (\<lambda>x. foldl (\<lambda>it u. u it) (u x) us) s"
    using k(1) by (simp add: updateImport_def keeps_id_def)
  with Cons.IH [OF k(2), of "updateImport i u s"] show ?case by simp
qed

text \<open>
  A run, applied to the state: every item with the id of the run is moved to the final stage
  of the run, and the timer of that id is registered anew, or cleared.
\<close>

lemma apply_run_eq:
  "apply_run i (runImport env item) s =
     (let s1 = updateImport i (\<lambda>x. foldl (\<lambda>it u. u it) x (updates (runImport env item))) s
      in case poll (runImport env item) of
           Some v \<Rightarrow> pollVideoStatus i v s1
         | None \<Rightarrow> clear_if_set i s1)"
  by (simp add: apply_run_def fold_updateImport [OF keeps_id_run])

subsection \<open>The invariant is kept\<close>

lemma timers_ok_cong:
  "intervals s' = intervals s \<Longrightarrow> pollTimers s' = pollTimers s \<Longrightarrow>
   nextTimerId s' = nextTimerId s \<Longrightarrow> timers_ok s' = timers_ok s"
  by (simp add: timers_ok_def)

lemma updateImport_simps [simp]:
  "pollTimers (updateImport i u s) = pollTimers s"
  "resumedPollingIds (updateImport i u s) = resumedPollingIds s"
  "igniteToken (updateImport i u s) = igniteToken s"
  "intervals (updateImport i u s) = intervals s"
  "nextTimerId (updateImport i u s) = nextTimerId s"
  "importsQ (updateImport i u s) =
     map (\<lambda>item. if item_id item = i then u item else item) (importsQ s)"
  by (simp_all add: updateImport_def)

lemma timers_ok_updateImport [simp]: "timers_ok (updateImport i u s) = timers_ok s"
  by (rule timers_ok_cong) simp_all

lemma same_stage_filter: "same_stage q \<Longrightarrow> same_stage (filter P q)"
  by (simp add: same_stage_def)

text \<open>An element of the updated queue: an updated item of id \<open>i\<close>, or an old item of another id.\<close>

lemma updated_cases:
  assumes "x \<in> set (importsQ (updateImport i F s))" and "\<forall>y. item_id (F y) = item_id y"
  obtains (upd) y where "y \<in> set (importsQ s)" "item_id y = i" "x = F y" "item_id x = i"
    | (old) "x \<in> set (importsQ s)" "item_id x \<noteq> i"
  using assms by (auto split: if_splits)

lemma same_stage_updated:
  assumes "same_stage (filter (\<lambda>x. item_id x \<noteq> i) (importsQ s))"
    and "\<forall>y. item_id (F y) = item_id y" and "\<forall>y. stage (F y) = c"
  shows "same_stage (importsQ (updateImport i F s))"
  unfolding same_stage_def
proof (intro ballI impI)
  fix x y
  assume x: "x \<in> set (importsQ (updateImport i F s))"
    and y: "y \<in> set (importsQ (updateImport i F s))" and e: "item_id x = item_id y"
  from x assms(2) show "stage x = stage y"
  proof (cases rule: updated_cases)
    case (upd x')
    with e have "item_id y = i" by simp
    with y assms(2) obtain y' where "y = F y'" by (auto split: if_splits)
    with upd assms(3) show ?thesis by simp
  next
    case old
    with e have "item_id y \<noteq> i" by simp
    with y assms(2) have "y \<in> set (importsQ s)" by (auto split: if_splits)
    with old \<open>item_id y \<noteq> i\<close>
    have "x \<in> set (filter (\<lambda>x. item_id x \<noteq> i) (importsQ s))"
      "y \<in> set (filter (\<lambda>x. item_id x \<noteq> i) (importsQ s))"
      by simp_all
    with assms(1) e show ?thesis unfolding same_stage_def by blast
  qed
qed

lemma pre_inv_register:
  assumes "timers_ok s" and "unresumed_ok s"
    and "same_stage (filter (\<lambda>x. item_id x \<noteq> i) (importsQ s))"
    and "\<forall>y. item_id (F y) = item_id y" and "\<forall>y. stage (F y) = Polling"
  shows "pre_inv (pollVideoStatus i v (updateImport i F s))"
  unfolding pre_inv_def
proof (intro conjI)
  show "timers_ok (pollVideoStatus i v (updateImport i F s))"
    using assms(1) by (simp add: pollVideoStatus_ok)
  show "same_stage (importsQ (pollVideoStatus i v (updateImport i F s)))"
    using same_stage_updated [OF assms(3,4,5)] by simp
  show "unresumed_ok (pollVideoStatus i v (updateImport i F s))"
    unfolding unresumed_ok_def
  proof (intro ballI impI)
    fix x
    assume x: "x \<in> set (importsQ (pollVideoStatus i v (updateImport i F s)))"
      and p: "stage x = Polling"
      and n: "pollTimers (pollVideoStatus i v (updateImport i F s)) (item_id x) = None"
    from n have ne: "item_id x \<noteq> i" by (auto split: if_splits)
    with n have n': "pollTimers s (item_id x) = None" by simp
    from x have "x \<in> set (importsQ (updateImport i F s))" by simp
    then have "x \<in> set (importsQ s)"
      using assms(4) ne by (cases rule: updated_cases) simp_all
    with assms(2) p n' show "item_id x \<notin> resumedPollingIds (pollVideoStatus i v (updateImport i F s))"
      by (simp add: unresumed_ok_def)
  qed
qed

lemma pre_inv_unregister:
  assumes "timers_ok s" and "unresumed_ok s"
    and "same_stage (filter (\<lambda>x. item_id x \<noteq> i) (importsQ s))"
    and "\<forall>y. item_id (F y) = item_id y" and "\<forall>y. stage (F y) = c" and "c \<noteq> Polling"
  shows "pre_inv (clear_if_set i (updateImport i F s))"
  unfolding pre_inv_def
proof (intro conjI)
  have t: "timers_ok (updateImport i F s)" using assms(1) by simp
  note cs = clear_if_set_simps [OF t]
  show "timers_ok (clear_if_set i (updateImport i F s))"
    using t by (rule clear_if_set_ok)
  show "same_stage (importsQ (clear_if_set i (updateImport i F s)))"
    using same_stage_updated [OF assms(3,4,5)] by (simp only: cs)
  show "unresumed_ok (clear_if_set i (updateImport i F s))"
    unfolding unresumed_ok_def cs
  proof (intro ballI impI)
    fix x
    assume x: "x \<in> set (importsQ (updateImport i F s))" and p: "stage x = Polling"
      and n: "((pollTimers (updateImport i F s))(i := None)) (item_id x) = None"
    from x assms(4) show "item_id x \<notin> resumedPollingIds (updateImport i F s)"
    proof (cases rule: updated_cases)
      case (upd y)
      with assms(5,6) p show ?thesis by simp
    next
      case old
      with n have "pollTimers s (item_id x) = None" by simp
      with old assms(2) p show ?thesis by (simp add: unresumed_ok_def)
    qed
  qed
qed

lemma pre_inv_relabel:
  assumes "pre_inv s" and "\<forall>y. item_id (F y) = item_id y" and "\<forall>y. stage (F y) = stage y"
  shows "pre_inv (updateImport i F s)"
proof -
  have m: "x \<in> set (importsQ (updateImport i F s)) \<Longrightarrow>
      \<exists>y\<in>set (importsQ s). item_id y = item_id x \<and> stage y = stage x" for x
    using assms(2,3) by (auto split: if_splits)
  from assms(1) have "same_stage (importsQ (updateImport i F s))"
    unfolding pre_inv_def same_stage_def by (metis m)
  moreover from assms(1) have "unresumed_ok (updateImport i F s)"
    unfolding pre_inv_def unresumed_ok_def
    by (metis m updateImport_simps(1) updateImport_simps(2))
  ultimately show ?thesis using assms(1) by (simp add: pre_inv_def)
qed

lemma pre_inv_apply_run:
  assumes "timers_ok s" and "unresumed_ok s"
    and "same_stage (filter (\<lambda>x. item_id x \<noteq> i) (importsQ s))"
  shows "pre_inv (apply_run i (runImport env item) s)"
proof -
  let ?F = "\<lambda>x. foldl (\<lambda>it u. u it) x (updates (runImport env item))"
  have k: "\<forall>y. item_id (?F y) = item_id y"
    by (simp add: run_keeps_id_gen [OF keeps_id_run])
  have f: "\<forall>y. stage (?F y) = final_stage (runImport env item)"
    by (simp add: run_final_stage)
  show ?thesis
  proof (cases "poll (runImport env item)")
    case None
    then have "final_stage (runImport env item) \<noteq> Polling" by (simp add: final_stage_def)
    from pre_inv_unregister [OF assms k f this] None show ?thesis
      by (simp add: apply_run_eq)
  next
    case (Some v)
    with f have "\<forall>y. stage (?F y) = Polling" by (simp add: final_stage_def)
    from pre_inv_register [OF assms k this] Some show ?thesis
      by (simp add: apply_run_eq)
  qed
qed

lemma pre_inv_startImport:
  assumes "pre_inv s"
  shows "pre_inv (startImport now v opts env s)"
proof (cases "canImport s v")
  case False
  with assms show ?thesis by (simp add: startImport_def)
next
  case True
  let ?item = "newImport now v opts"
  let ?s = "s\<lparr>importsQ := ?item # importsQ s\<rparr>"
  from assms have t: "timers_ok ?s"
    by (simp add: pre_inv_def timers_ok_def)
  from assms have u: "unresumed_ok ?s"
    by (simp add: pre_inv_def unresumed_ok_def newImport_def)
  from assms have "same_stage (filter (\<lambda>x. item_id x \<noteq> item_id ?item) (importsQ s))"
    by (simp add: pre_inv_def same_stage_filter)
  then have q: "same_stage (filter (\<lambda>x. item_id x \<noteq> item_id ?item) (importsQ ?s))"
    by simp
  from pre_inv_apply_run [OF t u q] True show ?thesis
    by (simp add: startImport_def Let_def)
qed

lemma pre_inv_pending [simp]: "pre_inv (s\<lparr>pending := p\<rparr>) = pre_inv s"
  by (simp add: pre_inv_def timers_ok_def unresumed_ok_def)
lemma pre_inv_poll_answer:
  assumes "pre_inv s"
  shows "pre_inv (poll_answer i a s)"
proof (cases a)
  case (Inl e)
  with assms show ?thesis by (simp add: poll_answer_def)
next
  case (Inr raw)
  let ?s1 = "updateImport i (\<lambda>prev. prev\<lparr>statusText := ''Processing: '' @ toUpperCase raw\<rparr>) s"
  have p1: "pre_inv ?s1" using assms by (rule pre_inv_relabel) simp_all
  then have t: "timers_ok ?s1" "unresumed_ok ?s1"
    "same_stage (filter (\<lambda>x. item_id x \<noteq> i) (importsQ ?s1))"
    by (simp_all add: pre_inv_def same_stage_filter del: updateImport_simps)
  have d: "pre_inv (clear_and_delete i (updateImport i
      (\<lambda>prev. prev\<lparr>stage := Complete, statusText := ''Import complete!'', progress := 100\<rparr>) ?s1))"
    using pre_inv_unregister [OF t, of "\<lambda>prev. prev\<lparr>stage := Complete,
        statusText := ''Import complete!'', progress := 100\<rparr>" Complete] t(1)
    by (simp add: clear_and_delete_eq del: updateImport_simps(6))
  have e: "pre_inv (clear_and_delete i (updateImport i
      (\<lambda>prev. prev\<lparr>stage := Error,
         errorMessage := Some (''Encoding failed: '' @ toUpperCase raw)\<rparr>) ?s1))"
    using pre_inv_unregister [OF t, of "\<lambda>prev. prev\<lparr>stage := Error,
         errorMessage := Some (''Encoding failed: '' @ toUpperCase raw)\<rparr>" Error] t(1)
    by (simp add: clear_and_delete_eq del: updateImport_simps(6))
  from Inr p1 d e show ?thesis
    by (simp add: poll_answer_def Let_def del: updateImport_simps)
qed
lemma pre_inv_removeImport:
  assumes "pre_inv s"
  shows "pre_inv (removeImport i s)"
proof -
  from assms have t: "timers_ok s" by (simp add: pre_inv_def)
  note cs = clear_if_set_simps [OF t]
  let ?s = "(clear_if_set i s)\<lparr>importsQ := filter (\<lambda>item. item_id item \<noteq> i) (importsQ s)\<rparr>"
  have "timers_ok ?s = timers_ok (clear_if_set i s)"
    by (rule timers_ok_cong) simp_all
  with clear_if_set_ok [OF t] have "timers_ok ?s" by simp
  moreover from assms have "same_stage (importsQ ?s)"
    by (simp add: pre_inv_def same_stage_filter)
  moreover from assms have "unresumed_ok ?s"
    by (auto simp: pre_inv_def unresumed_ok_def cs)
  ultimately show ?thesis
    by (simp add: pre_inv_def removeImport_def Let_def cs)
qed

lemma clear_finished_fold:
  assumes "timers_ok s"
  shows "timers_ok (foldl (\<lambda>st item.
             if stage item = Complete \<or> stage item = Error then clear_if_set (item_id item) st
             else st) s xs) \<and>
         importsQ (foldl (\<lambda>st item.
             if stage item = Complete \<or> stage item = Error then clear_if_set (item_id item) st
             else st) s xs) = importsQ s \<and>
         resumedPollingIds (foldl (\<lambda>st item.
             if stage item = Complete \<or> stage item = Error then clear_if_set (item_id item) st
             else st) s xs) = resumedPollingIds s \<and>
         (\<forall>j. pollTimers (foldl (\<lambda>st item.
             if stage item = Complete \<or> stage item = Error then clear_if_set (item_id item) st
             else st) s xs) j =
            (if j \<in> item_id ` {x \<in> set xs. stage x = Complete \<or> stage x = Error} then None
             else pollTimers s j))"
  using assms
proof (induction xs rule: rev_induct)
  case Nil
  then show ?case by simp
next
  case (snoc x xs)
  let ?f = "\<lambda>st item.
      if stage item = Complete \<or> stage item = Error then clear_if_set (item_id item) st else st"
  from snoc have ih: "timers_ok (foldl ?f s xs)" "importsQ (foldl ?f s xs) = importsQ s"
    "resumedPollingIds (foldl ?f s xs) = resumedPollingIds s"
    "\<And>j. pollTimers (foldl ?f s xs) j =
       (if j \<in> item_id ` {x \<in> set xs. stage x = Complete \<or> stage x = Error} then None
        else pollTimers s j)"
    by simp_all
  note cs = clear_if_set_simps [OF ih(1)]
  show ?case
  proof (cases "stage x = Complete \<or> stage x = Error")
    case True
    with ih clear_if_set_ok [OF ih(1)] show ?thesis
      by (auto simp: cs)
  next
    case False
    with ih show ?thesis by auto
  qed
qed

lemma pre_inv_clearFinished:
  assumes "pre_inv s"
  shows "pre_inv (clearFinished s)"
proof -
  define s1 where "s1 = foldl (\<lambda>st item.
      if stage item = Complete \<or> stage item = Error then clear_if_set (item_id item) st else st)
      s (importsQ s)"
  define s2 where "s2 = s1\<lparr>importsQ :=
      filter (\<lambda>item. stage item \<noteq> Complete \<and> stage item \<noteq> Error) (importsQ s1)\<rparr>"
  from assms have t: "timers_ok s" by (simp add: pre_inv_def)
  from clear_finished_fold [OF t, of "importsQ s"]
  have f: "timers_ok s1" "importsQ s1 = importsQ s" "resumedPollingIds s1 = resumedPollingIds s"
    "\<And>j. pollTimers s1 j =
       (if j \<in> item_id ` {x \<in> set (importsQ s). stage x = Complete \<or> stage x = Error} then None
        else pollTimers s j)"
    unfolding s1_def by blast+
  have c: "clearFinished s = s2"
    by (simp add: clearFinished_def Let_def s1_def s2_def)
  have "timers_ok s2 = timers_ok s1" by (rule timers_ok_cong) (simp_all add: s2_def)
  with f(1) have "timers_ok s2" by simp
  moreover from assms have "same_stage (importsQ s2)"
    by (simp add: pre_inv_def same_stage_filter s2_def f(2))
  moreover have "unresumed_ok s2"
    unfolding unresumed_ok_def
  proof (intro ballI impI)
    fix x
    assume x: "x \<in> set (importsQ s2)" and p: "stage x = Polling"
      and n: "pollTimers s2 (item_id x) = None"
    from x have xq: "x \<in> set (importsQ s)" by (simp add: s2_def f(2))
    have "item_id x \<notin> item_id ` {y \<in> set (importsQ s). stage y = Complete \<or> stage y = Error}"
    proof
      assume "item_id x \<in> item_id ` {y \<in> set (importsQ s). stage y = Complete \<or> stage y = Error}"
      then obtain y where "y \<in> set (importsQ s)" "stage y = Complete \<or> stage y = Error"
        "item_id x = item_id y" by auto
      with assms xq have "stage x = stage y" unfolding pre_inv_def same_stage_def by blast
      with p \<open>stage y = Complete \<or> stage y = Error\<close> show False by simp
    qed
    moreover from n have "pollTimers s1 (item_id x) = None" by (simp add: s2_def)
    ultimately have "pollTimers s (item_id x) = None" by (simp add: f(4))
    with assms xq p have "item_id x \<notin> resumedPollingIds s"
      unfolding pre_inv_def unresumed_ok_def by blast
    then show "item_id x \<notin> resumedPollingIds s2" by (simp add: s2_def f(3))
  qed
  ultimately show ?thesis by (simp add: c pre_inv_def)
qed

subsection \<open>The resume effect\<close>

lemma pre_inv_resume_item:
  assumes "pre_inv s"
  shows "pre_inv (resume_item s x)"
proof (cases "resume_item s x = s")
  case True
  with assms show ?thesis by simp
next
  case False
  then obtain v where r: "resume_item s x =
      pollVideoStatus (item_id x) v (s\<lparr>resumedPollingIds := insert (item_id x) (resumedPollingIds s)\<rparr>)"
    by (auto simp: resume_item_def split: option.splits if_splits)
  let ?s = "s\<lparr>resumedPollingIds := insert (item_id x) (resumedPollingIds s)\<rparr>"
  have "timers_ok ?s = timers_ok s" by (rule timers_ok_cong) simp_all
  with assms have "timers_ok (pollVideoStatus (item_id x) v ?s)"
    by (simp add: pre_inv_def pollVideoStatus_ok)
  moreover from assms have "same_stage (importsQ (pollVideoStatus (item_id x) v ?s))"
    by (simp add: pre_inv_def)
  moreover from assms have "unresumed_ok (pollVideoStatus (item_id x) v ?s)"
    by (auto simp: pre_inv_def unresumed_ok_def split: if_splits)
  ultimately show ?thesis by (simp add: r pre_inv_def)
qed
lemma pre_inv_resume_fold:
  "pre_inv s \<Longrightarrow> pre_inv (foldl resume_item s xs)"
  by (induction xs arbitrary: s) (simp_all add: pre_inv_resume_item)
lemma resume_item_mono:
  "pollTimers s i \<noteq> None \<Longrightarrow> pollTimers (resume_item s x) i \<noteq> None"
  by (auto simp: resume_item_def split: option.splits)
lemma resume_fold_mono:
  "pollTimers s i \<noteq> None \<Longrightarrow> pollTimers (foldl resume_item s xs) i \<noteq> None"
proof (induction xs arbitrary: s)
  case Nil
  then show ?case by simp
next
  case (Cons a xs)
  from Cons.IH [OF resume_item_mono [OF Cons.prems]] show ?case by simp
qed
lemma resume_item_covers:
  assumes "unresumed_ok s" and "x \<in> set (importsQ s)" and "stage x = Polling"
    and "truthy (igniteVideoId x)"
  shows "pollTimers (resume_item s x) (item_id x) \<noteq> None"
proof (cases "pollTimers s (item_id x)")
  case (Some t)
  then show ?thesis by (simp add: resume_item_mono)
next
  case None
  with assms have "item_id x \<notin> resumedPollingIds s" by (simp add: unresumed_ok_def)
  with assms None show ?thesis
    by (auto simp: resume_item_def truthy_def split: option.splits)
qed
lemma resume_fold_covers:
  assumes "pre_inv s" and "set xs \<subseteq> set (importsQ s)" and "x \<in> set xs"
    and "stage x = Polling" and "truthy (igniteVideoId x)"
  shows "pollTimers (foldl resume_item s xs) (item_id x) \<noteq> None"
  using assms
proof (induction xs arbitrary: s)
  case Nil
  then show ?case by simp
next
  case (Cons y ys)
  have p: "pre_inv (resume_item s y)" using Cons.prems(1) by (rule pre_inv_resume_item)
  have q: "set ys \<subseteq> set (importsQ (resume_item s y))" using Cons.prems(2) by simp
  show ?case
  proof (cases "x = y")
    case True
    from Cons.prems have "pollTimers (resume_item s x) (item_id x) \<noteq> None"
      by (intro resume_item_covers) (simp_all add: pre_inv_def True)
    with True show ?thesis by (simp add: resume_fold_mono)
  next
    case False
    with Cons.prems(3) have "x \<in> set ys" by simp
    from Cons.IH [OF p q this Cons.prems(4,5)] show ?thesis by simp
  qed
qed
lemma inv_resumeEffect:
  assumes "pre_inv s"
  shows "inv (resumeEffect s)"
proof (cases "igniteToken s = []")
  case True
  with assms show ?thesis by (simp add: resumeEffect_def inv_def polling_covered_def)
next
  case False
  have "polling_covered (foldl resume_item s (importsQ s))"
    unfolding polling_covered_def
    using resume_fold_covers [OF assms, of "importsQ s"] by simp
  with False pre_inv_resume_fold [OF assms] show ?thesis
    by (simp add: resumeEffect_def inv_def)
qed

subsection \<open>Every reachable state\<close>

lemma distinct_same_stage: "distinct (map item_id q) \<Longrightarrow> same_stage q"
  unfolding same_stage_def by (metis distinct_map inj_onD)

lemma processedImports_ids: "map item_id (processedImports parsed) = map item_id parsed"
  by (simp add: processedImports_def interrupted_def)

lemma pre_inv_loaded:
  assumes "distinct (map item_id (case stored_imports st of Some p \<Rightarrow> p | None \<Rightarrow> []))"
  shows "pre_inv (loaded st)"
proof -
  have "distinct (map item_id (importsQ (loaded st)))"
    using assms by (simp add: loaded_def processedImports_ids split: option.splits)
  then have "same_stage (importsQ (loaded st))" by (rule distinct_same_stage)
  moreover have "timers_ok (loaded st)" "unresumed_ok (loaded st)"
    by (simp_all add: timers_ok_def unresumed_ok_def loaded_def)
  ultimately show ?thesis by (simp add: pre_inv_def)
qed

lemma inv_frame [simp]:
  "inv (s\<lparr>pending := p\<rparr>) = inv s" "inv (s\<lparr>vimeoToken := t\<rparr>) = inv s"
  by (simp_all add: inv_def pre_inv_def timers_ok_def unresumed_ok_def polling_covered_def)

lemma pre_inv_token [simp]: "pre_inv (s\<lparr>igniteToken := t\<rparr>) = pre_inv s"
  by (simp add: pre_inv_def timers_ok_def unresumed_ok_def)

lemma inv_step:
  assumes "inv s" and "step e s = Some s'"
  shows "inv s'"
proof -
  from assms(1) have p: "pre_inv s" by (simp add: inv_def)
  show ?thesis
  proof (cases e)
    case (StartImport now v opts env)
    with assms pre_inv_startImport [OF p] show ?thesis
      by (auto intro: inv_resumeEffect split: if_splits)
  next
    case (Tick t)
    with assms show ?thesis by (auto split: list.splits)
  next
    case (Answer k a)
    let ?s0 = "s\<lparr>pending := take k (pending s) @ drop (Suc k) (pending s)\<rparr>"
    show ?thesis
    proof (cases a)
      case (Inl e)
      with Answer assms(2) have "s' = ?s0"
        by (simp add: poll_answer_def split: if_splits)
      with assms(1) show ?thesis by simp
    next
      case (Inr raw)
      with Answer assms(2) have "s' = resumeEffect (poll_answer (fst (pending s ! k)) a ?s0)"
        by (simp split: if_splits)
      with p show ?thesis
        by (simp add: inv_resumeEffect pre_inv_poll_answer)
    qed
  next
    case (RemoveImport i)
    with assms(2) pre_inv_removeImport [OF p] show ?thesis
      by (auto intro: inv_resumeEffect)
  next
    case ClearFinished
    with assms(2) pre_inv_clearFinished [OF p] show ?thesis
      by (auto intro: inv_resumeEffect)
  next
    case (SetIgniteToken t)
    with assms(2) p show ?thesis
      by (auto intro: inv_resumeEffect)
  next
    case (SetVimeoToken t)
    with assms show ?thesis by auto
  qed
qed

lemma inv_run_events:
  "inv s \<Longrightarrow> run_events es s = Some s' \<Longrightarrow> inv s'"
proof (induction es arbitrary: s)
  case Nil
  then show ?case by simp
next
  case (Cons e es)
  from Cons.prems(2) obtain s1 where s1: "step e s = Some s1" "run_events es s1 = Some s'"
    by (auto split: option.splits)
  from Cons.IH [OF inv_step [OF Cons.prems(1) s1(1)] s1(2)] show ?case .
qed

lemma inv_mount:
  "distinct (map item_id (case stored_imports st of Some p \<Rightarrow> p | None \<Rightarrow> [])) \<Longrightarrow> inv (mount st)"
  by (simp add: mount_def inv_resumeEffect pre_inv_loaded)

lemma inv_timers:
  assumes "inv s"
  shows "length (live_timers s i) \<le> 1"
    and "x \<in> set (importsQ s) \<Longrightarrow> stage x = Polling \<Longrightarrow> truthy (igniteVideoId x) \<Longrightarrow>
      igniteToken s \<noteq> [] \<Longrightarrow> length (live_timers s (item_id x)) = 1"
proof -
  from assms have t: "timers_ok s" by (simp add: inv_def pre_inv_def)
  show "length (live_timers s i) \<le> 1" by (simp add: live_timers_length [OF t])
  assume "x \<in> set (importsQ s)" "stage x = Polling" "truthy (igniteVideoId x)"
    "igniteToken s \<noteq> []"
  with assms have "pollTimers s (item_id x) \<noteq> None"
    unfolding inv_def polling_covered_def by blast
  then show "length (live_timers s (item_id x)) = 1" by (simp add: live_timers_length [OF t])
qed

lemma ex_started_reached:
  "run_events [StartImport 1700000000000 ''123'' ex_options ex_env] (mount ex_store) =
     Some ex_started"
proof -
  have "resumeEffect ex_started = ex_started"
    by (simp add: ex_started_state resumeEffect_def resume_item_def)
  moreover have "canImport (mount ex_store) ''123''"
    by (simp add: canImport_def ex_mount trim_def is_space_def)
  ultimately show ?thesis by (simp add: ex_started_def)
qed




end
